theory Spec2Isabelle
  imports Main
begin

section \<open>Characters and strings\<close>

text \<open>
  A Python \<open>str\<close> is a sequence of Unicode code points, and the text widget addresses its
  contents by character.  A character is modelled by its code point, so that the two
  non-ASCII members of \<open>Page.illegals\<close> and the Unicode white space stripped by
  \<open>str.lstrip\<close> are ordinary values.
\<close>

type_synonym uchar = nat

definition ustr :: "string \<Rightarrow> uchar list" where
  "ustr s = map of_char s"

definition NL :: uchar where "NL = 10"
definition SPACE :: uchar where "SPACE = 32"
definition DQUOTE :: uchar where "DQUOTE = 34"
definition HASH :: uchar where "HASH = 35"
definition SQUOTE :: uchar where "SQUOTE = 39"
definition COLON :: uchar where "COLON = 58"

text \<open>
  \<open>Page.illegals\<close> (page.py, line 41), in the order of the source: the characters
  \<open>` \<not> \<brokenbar> ! " % ^ & * ( ) - space + = [ ] { } ' @ : ; # ~ / ? , < . > \ |\<close>.
\<close>

definition illegals :: "uchar list" where
  "illegals = [96, 172, 166, 33, 34, 37, 94, 38, 42, 40, 41, 45, 32, 43, 61, 91, 93, 123,
     125, 39, 64, 58, 59, 35, 126, 47, 63, 44, 60, 46, 62, 92, 124]"

text \<open>The characters for which Python's \<open>str.isspace\<close> holds; \<open>str.lstrip()\<close> removes them.\<close>

definition py_isspace :: "uchar \<Rightarrow> bool" where
  "py_isspace c \<longleftrightarrow> c \<in> set [9, 10, 11, 12, 13, 28, 29, 30, 31, 32, 133, 160, 5760,
     8192, 8193, 8194, 8195, 8196, 8197, 8198, 8199, 8200, 8201, 8202, 8232, 8233, 8239,
     8287, 12288]"

definition lstrip :: "uchar list \<Rightarrow> uchar list" where
  "lstrip s = dropWhile py_isspace s"

section \<open>Python indexing and short-circuit conditions\<close>

datatype py_error = IndexError

text \<open>\<open>line[i]\<close>: a negative index counts from the end; outside \<open>-len .. len - 1\<close> it raises.\<close>

definition py_index :: "'a list \<Rightarrow> int \<Rightarrow> py_error + 'a" where
  "py_index xs i =
     (if 0 \<le> i \<and> i < int (length xs) then Inr (xs ! nat i)
      else if - int (length xs) \<le> i \<and> i < 0 then Inr (xs ! nat (int (length xs) + i))
      else Inl IndexError)"

text \<open>
  A condition is evaluated to the list of indices at which it read the line, in order, and
  to its value or the exception it raised.  \<open>or_t\<close> and \<open>and_t\<close> are Python's \<open>or\<close> and
  \<open>and\<close>: the right operand is evaluated only when the left one does not decide.
\<close>

type_synonym 'a traced = "int list \<times> (py_error + 'a)"

definition pure_t :: "bool \<Rightarrow> bool traced" where
  "pure_t b = ([], Inr b)"

definition or_t :: "bool traced \<Rightarrow> bool traced \<Rightarrow> bool traced" where
  "or_t p q = (case snd p of Inr False \<Rightarrow> (fst p @ fst q, snd q) | _ \<Rightarrow> p)"

definition and_t :: "bool traced \<Rightarrow> bool traced \<Rightarrow> bool traced" where
  "and_t p q = (case snd p of Inr True \<Rightarrow> (fst p @ fst q, snd q) | _ \<Rightarrow> p)"

text \<open>\<open>line[i] in Page.illegals\<close>\<close>

definition in_illegals :: "uchar list \<Rightarrow> int \<Rightarrow> bool traced" where
  "in_illegals line i =
     ([i], case py_index line i of Inl e \<Rightarrow> Inl e | Inr c \<Rightarrow> Inr (c \<in> set illegals))"

text \<open>
  The condition of page.py, lines 286-298 (and again 326-340), with \<open>col\<close> for
  \<open>int(index.split(".")[1])\<close> and \<open>n\<close> for \<open>length.get()\<close>.
\<close>

definition delimited :: "uchar list \<Rightarrow> int \<Rightarrow> int \<Rightarrow> bool traced" where
  "delimited line col n =
     or_t (and_t (pure_t (col = 0)) (pure_t (int (length line) = col + n)))
    (or_t (and_t (pure_t (col = 0)) (in_illegals line (col + n)))
    (or_t (and_t (pure_t (int (length line) = col + n)) (in_illegals line (col - 1)))
          (and_t (and_t (pure_t (col \<noteq> 0)) (pure_t (int (length line) > col + n)))
                 (and_t (in_illegals line (col - 1)) (in_illegals line (col + n))))))"

section \<open>The text widget\<close>

text \<open>
  \<open>tkinter.Text\<close> is not code of the repository; the operations the method uses are
  modelled after Tk's documentation.  A position is the number of characters before it
  (\<open>1.0\<close> is \<open>0\<close>); the widget's characters are the buffer followed by the line break Tk
  keeps at the end, and \<open>end\<close> is the position after that line break.  A tag is the set of
  positions of the characters that carry it.
\<close>

datatype tag = Kw | Bi | Str | Comment

record widget =
  buffer :: "uchar list"
  cursor :: nat
  mark_a :: nat
  mark_b :: nat
  tags :: "tag \<Rightarrow> nat set"

definition chars :: "widget \<Rightarrow> uchar list" where
  "chars w = buffer w @ [NL]"

definition end_index :: "widget \<Rightarrow> nat" where
  "end_index w = length (buffer w) + 1"

text \<open>\<open>i +kc\<close> and \<open>i -kc\<close>: positions are kept between \<open>1.0\<close> and \<open>end\<close>.\<close>

definition plus_c :: "widget \<Rightarrow> nat \<Rightarrow> nat \<Rightarrow> nat" where
  "plus_c w i k = min (i + k) (end_index w)"

definition minus_c :: "nat \<Rightarrow> nat \<Rightarrow> nat" where
  "minus_c i k = i - k"

definition linestart :: "widget \<Rightarrow> nat \<Rightarrow> nat" where
  "linestart w i = i - length (takeWhile (\<lambda>c. c \<noteq> NL) (rev (take i (chars w))))"

definition lineend :: "widget \<Rightarrow> nat \<Rightarrow> nat" where
  "lineend w i = i + length (takeWhile (\<lambda>c. c \<noteq> NL) (drop i (chars w)))"

text \<open>
  \<open>i -1l\<close>: the same column one line up, or the end of that line when it is shorter; on the
  first line the position stays.
\<close>

definition minus_1l :: "widget \<Rightarrow> nat \<Rightarrow> nat" where
  "minus_1l w i =
     (let s = linestart w i
      in if s = 0 then i
         else min (linestart w (s - 1) + (i - s)) (s - 1))"

definition tk_get :: "widget \<Rightarrow> nat \<Rightarrow> nat \<Rightarrow> uchar list" where
  "tk_get w i j = take (j - i) (drop i (chars w))"

text \<open>\<open>t.get(i)\<close>: the character at \<open>i\<close>.\<close>

definition tk_get1 :: "widget \<Rightarrow> nat \<Rightarrow> uchar list" where
  "tk_get1 w i = tk_get w i (i + 1)"

text \<open>
  \<open>t.search(pat, start, stop)\<close>: the first position from \<open>start\<close> on, before \<open>stop\<close>, at
  which the exact pattern begins; \<open>None\<close> for Python's empty string.
\<close>

definition tk_search :: "widget \<Rightarrow> uchar list \<Rightarrow> nat \<Rightarrow> nat \<Rightarrow> nat option" where
  "tk_search w pat start stop =
     find (\<lambda>i. take (length pat) (drop i (chars w)) = pat) [start..<min stop (end_index w)]"

definition tag_add :: "tag \<Rightarrow> nat \<Rightarrow> nat \<Rightarrow> widget \<Rightarrow> widget" where
  "tag_add tg i j w = w\<lparr>tags := (tags w)(tg := tags w tg \<union> {i..<j})\<rparr>"

definition tag_remove :: "tag \<Rightarrow> nat \<Rightarrow> nat \<Rightarrow> widget \<Rightarrow> widget" where
  "tag_remove tg i j w = w\<lparr>tags := (tags w)(tg := tags w tg - {i..<j})\<rparr>"

text \<open>
  \<open>t.insert("insert", s)\<close>: the characters go in at the cursor; the cursor and the marks at
  or after it move with the text behind them, as do the tagged positions, and the new
  characters carry a tag that the characters on both sides carry.
\<close>

definition shift_mark :: "nat \<Rightarrow> nat \<Rightarrow> nat \<Rightarrow> nat" where
  "shift_mark c k m = (if c \<le> m then m + k else m)"

definition shift_tag :: "nat \<Rightarrow> nat \<Rightarrow> nat set \<Rightarrow> nat set" where
  "shift_tag c k T =
     shift_mark c k ` T \<union> (if 0 < c \<and> c - 1 \<in> T \<and> c \<in> T then {c..<c + k} else {})"

definition tk_insert :: "uchar list \<Rightarrow> widget \<Rightarrow> widget" where
  "tk_insert s w =
     (let c = min (cursor w) (length (buffer w)); k = length s
      in \<lparr>buffer = take c (buffer w) @ s @ drop c (buffer w),
          cursor = c + k,
          mark_a = shift_mark c k (mark_a w),
          mark_b = shift_mark c k (mark_b w),
          tags = (\<lambda>tg. shift_tag c k (tags w tg))\<rparr>)"

section \<open>The highlighting pass\<close>

subsection \<open>Keywords and built-in functions\<close>

text \<open>
  The body of the \<open>while True\<close> loop of lines 272-299; the loop of lines 312-341 is the
  same text with the tag \<open>bi\<close>.  \<open>Inr None\<close> is the \<open>break\<close>.
\<close>

definition token_step :: "tag \<Rightarrow> uchar list \<Rightarrow> widget \<Rightarrow> py_error + widget option" where
  "token_step tg kw w =
     (case tk_search w kw (mark_b w) (end_index w) of
        None \<Rightarrow> Inr None
      | Some index \<Rightarrow>
          let n = length kw;
              line = tk_get w (linestart w index) (lineend w index);
              col = index - linestart w index;
              w1 = w\<lparr>mark_a := index, mark_b := plus_c w index n\<rparr>
          in (case snd (delimited line (int col) (int n)) of
                Inl e \<Rightarrow> Inl e
              | Inr True \<Rightarrow> Inr (Some (tag_add tg (mark_a w1) (mark_b w1) w1))
              | Inr False \<Rightarrow> Inr (Some w1)))"

text \<open>
  The loop ends only when a search fails; with a token for which the marks do not advance
  it does not return, which is the value \<open>None\<close>.
\<close>

partial_function (option) token_loop ::
  "tag \<Rightarrow> uchar list \<Rightarrow> widget \<Rightarrow> (py_error + widget) option" where
  "token_loop tg kw w =
     (case token_step tg kw w of
        Inl e \<Rightarrow> Some (Inl e)
      | Inr None \<Rightarrow> Some (Inr w)
      | Inr (Some w') \<Rightarrow> token_loop tg kw w')"

declare token_loop.simps [code]

text \<open>
  \<open>for kw in Page.syntax["keywords"]\<close>: both marks go back to \<open>1.0\<close> before each token's
  loop.  An exception ends the pass.
\<close>

fun token_scan :: "tag \<Rightarrow> uchar list list \<Rightarrow> widget \<Rightarrow> (py_error + widget) option" where
  "token_scan tg [] w = Some (Inr w)"
| "token_scan tg (kw # kws) w =
     (case token_loop tg kw (w\<lparr>mark_a := 0, mark_b := 0\<rparr>) of
        None \<Rightarrow> None
      | Some (Inl e) \<Rightarrow> Some (Inl e)
      | Some (Inr w') \<Rightarrow> token_scan tg kws w')"

subsection \<open>Strings\<close>

text \<open>The two copies of the loop (lines 351-373 and 383-406) differ in the quote only.\<close>

datatype quote = Double | Single

fun quote_char :: "quote \<Rightarrow> uchar" where
  "quote_char Double = DQUOTE"
| "quote_char Single = SQUOTE"

definition quote_step :: "quote \<Rightarrow> widget \<Rightarrow> widget option" where
  "quote_step q w =
     (case tk_search w [quote_char q] (mark_b w) (end_index w) of
        None \<Rightarrow> None
      | Some index \<Rightarrow>
          let w1 = w\<lparr>mark_a := index, mark_b := lineend w index\<rparr>
          in (case tk_search w1 [quote_char q] (plus_c w1 (mark_a w1) 1) (mark_b w1) of
                None \<Rightarrow> Some (tag_add Str (mark_a w1) (lineend w1 (mark_a w1)) w1)
              | Some index2 \<Rightarrow>
                  let w2 = w1\<lparr>mark_b := index2\<rparr>;
                      w3 = tag_add Str (mark_a w2) (plus_c w2 (mark_b w2) 1) w2
                  in Some (w3\<lparr>mark_b := plus_c w3 index2 1\<rparr>)))"

function quote_loop :: "quote \<Rightarrow> widget \<Rightarrow> widget" where
  "quote_loop q w = (case quote_step q w of None \<Rightarrow> w | Some w' \<Rightarrow> quote_loop q w')"
  by pat_completeness auto

subsection \<open>Comments\<close>

text \<open>The body of the loop of lines 416-432.\<close>

definition comment_step :: "widget \<Rightarrow> widget option" where
  "comment_step w =
     (case tk_search w [HASH] (mark_b w) (end_index w) of
        None \<Rightarrow> None
      | Some index \<Rightarrow>
          if count_list (tk_get w (linestart w index) index) DQUOTE mod 2 = 0
             \<and> count_list (tk_get w (linestart w index) index) SQUOTE mod 2 = 0
          then let w1 = w\<lparr>mark_a := index, mark_b := lineend w index\<rparr>;
                   w2 = tag_remove Str (mark_a w1) (mark_b w1) w1
               in Some (tag_add Comment (mark_a w2) (mark_b w2) w2)
          else Some (w\<lparr>mark_b := plus_c w index 1\<rparr>))"

function comment_loop :: "widget \<Rightarrow> widget" where
  "comment_loop w = (case comment_step w of None \<Rightarrow> w | Some w' \<Rightarrow> comment_loop w')"
  by pat_completeness auto

subsection \<open>Automatic indentation\<close>

text \<open>Lines 248-253.  The cursor is the mark \<open>insert\<close>.\<close>

definition auto_indent :: "widget \<Rightarrow> widget" where
  "auto_indent w =
     (let prevln = tk_get w (linestart w (minus_c (cursor w) 1))
                            (lineend w (minus_c (cursor w) 1));
          w1 = tk_insert (replicate (4 * ((length prevln - length (lstrip prevln)) div 4)) SPACE) w
      in if tk_get1 w1 (minus_c (lineend w1 (minus_1l w1 (cursor w1))) 1) = [COLON]
         then tk_insert (replicate 4 SPACE) w1
         else w1)"

subsection \<open>\<open>Page.syntaxHighlight\<close>\<close>

text \<open>
  \<open>resources/syntax.json\<close> is not part of the sources; the two lists read from it are a
  parameter of the pass (the record of \<open>Page.syntax\<close>).
\<close>

record token_catalog =
  syntax_keywords :: "uchar list list"
  syntax_builtins :: "uchar list list"

text \<open>The key-release event with its \<open>keysym\<close>; the argument is \<open>None\<close> when no event is passed.\<close>

datatype event = KeyRelease (keysym: string)

definition reset_marks :: "widget \<Rightarrow> widget" where
  "reset_marks w = w\<lparr>mark_a := 0, mark_b := 0\<rparr>"

text \<open>Lines 256-259.\<close>

definition clear_tags :: "widget \<Rightarrow> widget" where
  "clear_tags w =
     tag_remove Comment 0 (end_index w)
       (tag_remove Str 0 (end_index w)
         (tag_remove Bi 0 (end_index w)
           (tag_remove Kw 0 (end_index w) w)))"

text \<open>Lines 347-432: the strings of each quote, then the comments.\<close>

definition strings_and_comments :: "widget \<Rightarrow> widget" where
  "strings_and_comments w =
     comment_loop (reset_marks (quote_loop Single (reset_marks
       (quote_loop Double (reset_marks w)))))"

text \<open>Lines 245-253: the indentation happens when an event is passed and its key is Return.\<close>

definition indent_on_return :: "event option \<Rightarrow> widget \<Rightarrow> widget" where
  "indent_on_return ev w =
     (if ev \<noteq> None \<and> keysym (the ev) = ''Return'' then auto_indent w else w)"

text \<open>Lines 255-432: the tags are removed and set again.\<close>

definition retag :: "token_catalog \<Rightarrow> widget \<Rightarrow> (py_error + widget) option" where
  "retag syn w =
     (case token_scan Kw (syntax_keywords syn) (clear_tags w) of
        None \<Rightarrow> None
      | Some (Inl e) \<Rightarrow> Some (Inl e)
      | Some (Inr w1) \<Rightarrow>
          (case token_scan Bi (syntax_builtins syn) w1 of
             None \<Rightarrow> None
           | Some (Inl e) \<Rightarrow> Some (Inl e)
           | Some (Inr w2) \<Rightarrow> Some (Inr (strings_and_comments w2))))"

definition syntaxHighlight :: "token_catalog \<Rightarrow> event option \<Rightarrow> widget \<Rightarrow> (py_error + widget) option" where
  "syntaxHighlight syn ev w = retag syn (indent_on_return ev w)"

section \<open>Notions of the specification\<close>

text \<open>
  The delimited whole-token occurrence in the words of the specification: a match of \<open>n\<close>
  characters at column \<open>col\<close> of \<open>line\<close> is one when the line equals the matched text, or
  the match starts at column 0 and the character after it is in the illegal set, or it ends
  at the line's length and the character before it is in the set, or it is interior and
  both neighbours are in the set.
\<close>

definition whole_token :: "uchar list \<Rightarrow> nat \<Rightarrow> nat \<Rightarrow> bool" where
  "whole_token line col n \<longleftrightarrow>
     line = take n (drop col line)
   \<or> (col = 0 \<and> col + n < length line \<and> line ! (col + n) \<in> set illegals)
   \<or> (col + n = length line \<and> 0 < col \<and> line ! (col - 1) \<in> set illegals)
   \<or> (0 < col \<and> col + n < length line \<and>
        line ! (col - 1) \<in> set illegals \<and> line ! (col + n) \<in> set illegals)"

section \<open>Pages and results\<close>

text \<open>
  The widget of a page created with contents \<open>cont\<close> (page.py, lines 74 and 95-96): the text
  is inserted at \<open>end\<close>, which leaves the cursor behind it, and nothing is tagged yet.
\<close>

definition new_page :: "uchar list \<Rightarrow> widget" where
  "new_page cont = \<lparr>buffer = cont, cursor = length cont, mark_a = 0, mark_b = 0, tags = (\<lambda>_. {})\<rparr>"

text \<open>The positions that carry a tag when the pass has returned, and the buffer then.\<close>

definition tagged :: "tag \<Rightarrow> (py_error + widget) option \<Rightarrow> (py_error + nat set) option" where
  "tagged tg r = map_option (map_sum id (\<lambda>w. tags w tg)) r"

definition buffer_of :: "(py_error + widget) option \<Rightarrow> (py_error + uchar list) option" where
  "buffer_of r = map_option (map_sum id buffer) r"

text \<open>The tokens of a catalog are identifiers: not empty, and without a line break.\<close>

definition token_ok :: "uchar list \<Rightarrow> bool" where
  "token_ok kw \<longleftrightarrow> kw \<noteq> [] \<and> NL \<notin> set kw"

definition catalog_ok :: "token_catalog \<Rightarrow> bool" where
  "catalog_ok syn \<longleftrightarrow> list_all token_ok (syntax_keywords syn) \<and> list_all token_ok (syntax_builtins syn)"

text \<open>Catalogs for the examples of the specification.\<close>

definition only_for :: token_catalog where
  "only_for = \<lparr>syntax_keywords = [ustr ''for''], syntax_builtins = []\<rparr>"

definition python_sample :: token_catalog where
  "python_sample = \<lparr>syntax_keywords = map ustr [''def'', ''return'', ''for'', ''if'', ''elif''],
     syntax_builtins = map ustr [''print'', ''len'']\<rparr>"

section \<open>Invariants and notions of the properties\<close>

text \<open>
  Tk keeps every tag within the widget's characters, the final line break included.
\<close>

definition tags_in_range :: "widget \<Rightarrow> bool" where
  "tags_in_range w \<longleftrightarrow> (\<forall>tg. tags w tg \<subseteq> {..<end_index w})"



text \<open>The quote characters of one kind on the line of \<open>p\<close>, strictly before \<open>p\<close>.\<close>

definition quotes_before :: "uchar \<Rightarrow> widget \<Rightarrow> nat \<Rightarrow> nat" where
  "quotes_before c w p = count_list (tk_get w (linestart w p) p) c"


text \<open>
  Both counts of the comment rule are even at \<open>p\<close>; and the positions of the comments of the
  specification: from a \<open>#\<close> at which both counts are even to the end of its line.
\<close>

definition outside_quotes :: "widget \<Rightarrow> nat \<Rightarrow> bool" where
  "outside_quotes w p \<longleftrightarrow> even (quotes_before DQUOTE w p) \<and> even (quotes_before SQUOTE w p)"

definition comment_start :: "widget \<Rightarrow> nat \<Rightarrow> bool" where
  "comment_start w q \<longleftrightarrow> q < length (buffer w) \<and> buffer w ! q = HASH \<and> outside_quotes w q"

definition comment_spans :: "widget \<Rightarrow> nat set" where
  "comment_spans w = {p. \<exists>q. comment_start w q \<and> q \<le> p \<and> p < lineend w q}"

text \<open>The positions of the comments that start before \<open>b\<close>.\<close>

definition spans_before :: "widget \<Rightarrow> nat \<Rightarrow> nat set" where
  "spans_before w b = {p. \<exists>q. q < b \<and> comment_start w q \<and> q \<le> p \<and> p < lineend w q}"

text \<open>The state of the comment loop, in terms of the comments that start before the mark \<open>b\<close>.\<close>

definition comment_inv :: "widget \<Rightarrow> widget \<Rightarrow> bool" where
  "comment_inv w x \<longleftrightarrow>
     buffer x = buffer w \<and> cursor x = cursor w \<and>
     tags x Kw = tags w Kw \<and> tags x Bi = tags w Bi \<and>
     tags x Comment = tags w Comment \<union> spans_before w (mark_b x) \<and>
     tags x Str = tags w Str - spans_before w (mark_b x)"

text \<open>
  The state between the removal of the tags and the comment loop: no comment is tagged,
  the keyword and built-in tags lie in the buffer, and the string tag lies on characters of
  the buffer other than line breaks.
\<close>

definition pre_inv :: "widget \<Rightarrow> widget \<Rightarrow> bool" where
  "pre_inv w x \<longleftrightarrow>
     buffer x = buffer w \<and> cursor x = cursor w \<and> tags x Comment = {} \<and>
     tags x Kw \<subseteq> {..<length (buffer w)} \<and> tags x Bi \<subseteq> {..<length (buffer w)} \<and>
     tags x Str \<subseteq> {p. p < length (buffer w) \<and> buffer w ! p \<noteq> NL}"

text \<open>Two widgets with the same buffer and the same tags; the cursor and the marks may differ.\<close>

definition same_content :: "widget \<Rightarrow> widget \<Rightarrow> bool" where
  "same_content x y \<longleftrightarrow> buffer y = buffer x \<and> tags y = tags x"


text \<open>
  Lines 255-406: the pass up to the comment loop, that is the removal of the tags and the
  scans of the keywords, of the built-in functions and of the strings.
\<close>

definition before_comments :: "token_catalog \<Rightarrow> widget \<Rightarrow> (py_error + widget) option" where
  "before_comments syn w =
     (case token_scan Kw (syntax_keywords syn) (clear_tags w) of
        None \<Rightarrow> None
      | Some (Inl e) \<Rightarrow> Some (Inl e)
      | Some (Inr w1) \<Rightarrow>
          (case token_scan Bi (syntax_builtins syn) w1 of
             None \<Rightarrow> None
           | Some (Inl e) \<Rightarrow> Some (Inl e)
           | Some (Inr w2) \<Rightarrow>
               Some (Inr (quote_loop Single (reset_marks (quote_loop Double (reset_marks w2)))))))"

section \<open>Searching and lines\<close>

lemma find_upt_Some_iff:
  "find P [s..<m] = Some i \<longleftrightarrow> s \<le> i \<and> i < m \<and> P i \<and> (\<forall>j. s \<le> j \<and> j < i \<longrightarrow> \<not> P j)"
proof (induction "m - s" arbitrary: s)
  case 0
  then show ?case by simp
next
  case (Suc d)
  then have sm: "s < m" and d: "d = m - Suc s" by simp_all
  have upt: "[s..<m] = s # [Suc s..<m]" using sm by (simp add: upt_conv_Cons)
  show ?case
  proof (cases "P s")
    case True
    have "find P [s..<m] = Some s" using True upt by simp
    moreover have "(s \<le> i \<and> i < m \<and> P i \<and> (\<forall>j. s \<le> j \<and> j < i \<longrightarrow> \<not> P j)) \<longleftrightarrow> i = s"
    proof
      assume a: "s \<le> i \<and> i < m \<and> P i \<and> (\<forall>j. s \<le> j \<and> j < i \<longrightarrow> \<not> P j)"
      show "i = s"
      proof (rule ccontr)
        assume "i \<noteq> s"
        then have "s \<le> s \<and> s < i" using a by simp
        with a have "\<not> P s" by blast
        with True show False by simp
      qed
    next
      assume "i = s"
      then show "s \<le> i \<and> i < m \<and> P i \<and> (\<forall>j. s \<le> j \<and> j < i \<longrightarrow> \<not> P j)"
        using True sm by auto
    qed
    ultimately show ?thesis by auto
  next
    case False
    have e1: "find P [s..<m] = find P [Suc s..<m]" using False upt by simp
    have e2: "find P [Suc s..<m] = Some i \<longleftrightarrow>
      Suc s \<le> i \<and> i < m \<and> P i \<and> (\<forall>j. Suc s \<le> j \<and> j < i \<longrightarrow> \<not> P j)"
      using Suc.hyps(1)[OF d] .
    have e3: "(Suc s \<le> i \<and> i < m \<and> P i \<and> (\<forall>j. Suc s \<le> j \<and> j < i \<longrightarrow> \<not> P j))
       \<longleftrightarrow> (s \<le> i \<and> i < m \<and> P i \<and> (\<forall>j. s \<le> j \<and> j < i \<longrightarrow> \<not> P j))"
    proof
      assume a: "Suc s \<le> i \<and> i < m \<and> P i \<and> (\<forall>j. Suc s \<le> j \<and> j < i \<longrightarrow> \<not> P j)"
      have "\<not> P j" if "s \<le> j \<and> j < i" for j
      proof (cases "j = s")
        case True then show ?thesis using False by simp
      next
        case False
        then have "Suc s \<le> j \<and> j < i" using that by simp
        with a show ?thesis by blast
      qed
      with a show "s \<le> i \<and> i < m \<and> P i \<and> (\<forall>j. s \<le> j \<and> j < i \<longrightarrow> \<not> P j)" by simp
    next
      assume a: "s \<le> i \<and> i < m \<and> P i \<and> (\<forall>j. s \<le> j \<and> j < i \<longrightarrow> \<not> P j)"
      then have "i \<noteq> s" using False by blast
      then have "Suc s \<le> i" using a by simp
      with a show "Suc s \<le> i \<and> i < m \<and> P i \<and> (\<forall>j. Suc s \<le> j \<and> j < i \<longrightarrow> \<not> P j)" by simp
    qed
    show ?thesis unfolding e1 e2 e3 ..
  qed
qed


lemma length_chars [simp]: "length (chars w) = end_index w"
  by (simp add: chars_def end_index_def)

lemma chars_last: "chars w ! length (buffer w) = NL"
  by (simp add: chars_def)

lemma tk_search_Some_iff:
  "tk_search w pat s e = Some i \<longleftrightarrow>
     s \<le> i \<and> i < e \<and> i < end_index w \<and> take (length pat) (drop i (chars w)) = pat \<and>
     (\<forall>j. s \<le> j \<and> j < i \<longrightarrow> take (length pat) (drop j (chars w)) \<noteq> pat)"
  unfolding tk_search_def find_upt_Some_iff by simp

lemma tk_search_None_iff:
  "tk_search w pat s e = None \<longleftrightarrow>
     (\<forall>j. s \<le> j \<and> j < e \<and> j < end_index w \<longrightarrow> take (length pat) (drop j (chars w)) \<noteq> pat)"
  unfolding tk_search_def find_None_iff by auto

lemma match1: "take (length [c]) (drop i (chars w)) = [c] \<longleftrightarrow> i < end_index w \<and> chars w ! i = c"
proof (cases "i < end_index w")
  case True
  then have "drop i (chars w) = chars w ! i # drop (Suc i) (chars w)"
    by (simp add: Cons_nth_drop_Suc)
  then show ?thesis using True by simp
next
  case False
  then show ?thesis by simp
qed

lemma lineend_ge: "i \<le> lineend w i"
  by (simp add: lineend_def)

lemma lineend_no_NL: "i \<le> j \<Longrightarrow> j < lineend w i \<Longrightarrow> chars w ! j \<noteq> NL"
proof -
  assume a: "i \<le> j" "j < lineend w i"
  let ?t = "takeWhile (\<lambda>c. c \<noteq> NL) (drop i (chars w))"
  have l: "j - i < length ?t" using a by (simp add: lineend_def)
  then have "?t ! (j - i) \<in> set ?t" by (rule nth_mem)
  then have "?t ! (j - i) \<noteq> NL" by (rule set_takeWhileD[THEN conjunct2])
  moreover have "?t ! (j - i) = drop i (chars w) ! (j - i)"
    using l by (rule takeWhile_nth)
  moreover have "j - i < length (drop i (chars w))"
    using l length_takeWhile_le[of "\<lambda>c. c \<noteq> NL" "drop i (chars w)"] by (rule less_le_trans)
  ultimately show ?thesis using a by simp
qed

lemma lineend_le: "i \<le> length (buffer w) \<Longrightarrow> lineend w i \<le> length (buffer w)"
proof (rule ccontr)
  assume a: "i \<le> length (buffer w)" "\<not> lineend w i \<le> length (buffer w)"
  then have "chars w ! length (buffer w) \<noteq> NL"
    by (intro lineend_no_NL[of i]) simp_all
  then show False by (simp add: chars_last)
qed

lemma lineend_is_NL: "i \<le> length (buffer w) \<Longrightarrow> chars w ! lineend w i = NL"
proof -
  assume a: "i \<le> length (buffer w)"
  let ?d = "drop i (chars w)"
  let ?t = "takeWhile (\<lambda>c. c \<noteq> NL) ?d"
  have l: "length ?t < length ?d"
    using lineend_le[OF a] a by (simp add: lineend_def end_index_def)
  then have "\<not> (?d ! length ?t \<noteq> NL)" by (rule nth_length_takeWhile)
  moreover have "?d ! length ?t = chars w ! (i + length ?t)"
    using l by simp
  ultimately show ?thesis by (simp add: lineend_def)
qed

lemma lineend_gt: "i < end_index w \<Longrightarrow> chars w ! i \<noteq> NL \<Longrightarrow> i < lineend w i"
proof -
  assume a: "i < end_index w" "chars w ! i \<noteq> NL"
  then have "drop i (chars w) = chars w ! i # drop (Suc i) (chars w)"
    by (simp add: Cons_nth_drop_Suc)
  with a show ?thesis by (simp add: lineend_def)
qed

lemma linestart_le: "linestart w i \<le> i"
  by (simp add: linestart_def)


lemma linestart_no_NL:
  assumes "i \<le> end_index w" "linestart w i \<le> j" "j < i"
  shows "chars w ! j \<noteq> NL"
proof -
  let ?r = "rev (take i (chars w))"
  let ?t = "takeWhile (\<lambda>c. c \<noteq> NL) ?r"
  have len: "length ?r = i" using assms(1) by simp
  have k: "i - Suc j < length ?t" using assms by (simp add: linestart_def)
  then have "?t ! (i - Suc j) \<in> set ?t" by (rule nth_mem)
  then have "?t ! (i - Suc j) \<noteq> NL" by (rule set_takeWhileD[THEN conjunct2])
  moreover have "?t ! (i - Suc j) = ?r ! (i - Suc j)" using k by (rule takeWhile_nth)
  moreover have "?r ! (i - Suc j) = take i (chars w) ! j"
    using assms len by (simp add: rev_nth)
  ultimately show ?thesis using assms by simp
qed

lemma linestart_prev_NL:
  assumes "i \<le> end_index w" "0 < linestart w i"
  shows "chars w ! (linestart w i - 1) = NL"
proof -
  let ?r = "rev (take i (chars w))"
  let ?t = "takeWhile (\<lambda>c. c \<noteq> NL) ?r"
  have len: "length ?r = i" using assms(1) by simp
  have l: "length ?t < length ?r" using assms(2) len by (simp add: linestart_def)
  then have "\<not> (?r ! length ?t \<noteq> NL)" by (rule nth_length_takeWhile)
  moreover have "?r ! length ?t = take i (chars w) ! (i - Suc (length ?t))"
    using l len by (simp add: rev_nth)
  moreover have "i - Suc (length ?t) = linestart w i - 1" by (simp add: linestart_def)
  ultimately show ?thesis using assms l len by simp
qed

text \<open>A position is on the line of every position between its line start and line end.\<close>

lemma lineend_same:
  assumes "i \<le> j" "j \<le> lineend w i" "i \<le> length (buffer w)"
  shows "lineend w j = lineend w i"
proof -
  have jb: "j \<le> length (buffer w)" using assms lineend_le[OF assms(3)] by simp
  have "\<not> lineend w j < lineend w i"
  proof
    assume "lineend w j < lineend w i"
    then have "chars w ! lineend w j \<noteq> NL"
      using lineend_no_NL[of i "lineend w j" w] assms(1) lineend_ge[of j w] by simp
    then show False using lineend_is_NL[OF jb] by simp
  qed
  moreover have "\<not> lineend w i < lineend w j"
  proof
    assume "lineend w i < lineend w j"
    then have "chars w ! lineend w i \<noteq> NL"
      using lineend_no_NL[of j "lineend w i" w] assms(2) by simp
    then show False using lineend_is_NL[OF assms(3)] by simp
  qed
  ultimately show ?thesis by simp
qed

lemma linestart_same:
  assumes "linestart w i \<le> j" "j \<le> i" "i \<le> end_index w"
  shows "linestart w j = linestart w i"
proof -
  have je: "j \<le> end_index w" using assms by simp
  have "\<not> linestart w j < linestart w i"
  proof
    assume a: "linestart w j < linestart w i"
    then have "chars w ! (linestart w i - 1) \<noteq> NL"
      using linestart_no_NL[OF je, of "linestart w i - 1"] assms(1) by simp
    then show False using linestart_prev_NL[OF assms(3)] a by simp
  qed
  moreover have "\<not> linestart w i < linestart w j"
  proof
    assume a: "linestart w i < linestart w j"
    then have "chars w ! (linestart w j - 1) \<noteq> NL"
      using linestart_no_NL[OF assms(3), of "linestart w j - 1"] linestart_le[of w j] assms(2) by simp
    then show False using linestart_prev_NL[OF je] a by simp
  qed
  ultimately show ?thesis by simp
qed

lemma lineend_linestart:
  assumes "i \<le> length (buffer w)"
  shows "lineend w (linestart w i) = lineend w i"
proof -
  have ie: "i \<le> end_index w" using assms by (simp add: end_index_def)
  have "\<not> lineend w (linestart w i) < i"
  proof
    assume a: "lineend w (linestart w i) < i"
    have "chars w ! lineend w (linestart w i) \<noteq> NL"
      using linestart_no_NL[OF ie _ a] lineend_ge by simp
    moreover have "linestart w i \<le> length (buffer w)" using linestart_le[of w i] assms by simp
    ultimately show False using lineend_is_NL by simp
  qed
  then have "i \<le> lineend w (linestart w i)" by simp
  moreover have "linestart w i \<le> length (buffer w)" using linestart_le[of w i] assms by simp
  ultimately show ?thesis using lineend_same[of "linestart w i" i w] linestart_le by simp
qed


text \<open>The widget's queries read the buffer only.\<close>

lemma chars_upd [simp]:
  "chars (w\<lparr>mark_a := a\<rparr>) = chars w" "chars (w\<lparr>mark_b := b\<rparr>) = chars w"
  "chars (w\<lparr>tags := T\<rparr>) = chars w" "chars (w\<lparr>cursor := c\<rparr>) = chars w"
  by (simp_all add: chars_def)

lemma end_index_upd [simp]:
  "end_index (w\<lparr>mark_a := a\<rparr>) = end_index w" "end_index (w\<lparr>mark_b := b\<rparr>) = end_index w"
  "end_index (w\<lparr>tags := T\<rparr>) = end_index w" "end_index (w\<lparr>cursor := c\<rparr>) = end_index w"
  by (simp_all add: end_index_def)

lemma lineend_upd [simp]:
  "lineend (w\<lparr>mark_a := a\<rparr>) = lineend w" "lineend (w\<lparr>mark_b := b\<rparr>) = lineend w"
  "lineend (w\<lparr>tags := T\<rparr>) = lineend w" "lineend (w\<lparr>cursor := c\<rparr>) = lineend w"
  by (simp_all add: lineend_def fun_eq_iff)

lemma linestart_upd [simp]:
  "linestart (w\<lparr>mark_a := a\<rparr>) = linestart w" "linestart (w\<lparr>mark_b := b\<rparr>) = linestart w"
  "linestart (w\<lparr>tags := T\<rparr>) = linestart w" "linestart (w\<lparr>cursor := c\<rparr>) = linestart w"
  by (simp_all add: linestart_def fun_eq_iff)

lemma tk_search_upd [simp]:
  "tk_search (w\<lparr>mark_a := a\<rparr>) = tk_search w" "tk_search (w\<lparr>mark_b := b\<rparr>) = tk_search w"
  "tk_search (w\<lparr>tags := T\<rparr>) = tk_search w" "tk_search (w\<lparr>cursor := c\<rparr>) = tk_search w"
  by (simp_all add: tk_search_def fun_eq_iff)

lemma tk_get_upd [simp]:
  "tk_get (w\<lparr>mark_a := a\<rparr>) = tk_get w" "tk_get (w\<lparr>mark_b := b\<rparr>) = tk_get w"
  "tk_get (w\<lparr>tags := T\<rparr>) = tk_get w" "tk_get (w\<lparr>cursor := c\<rparr>) = tk_get w"
  by (simp_all add: tk_get_def fun_eq_iff)

lemma plus_c_upd [simp]:
  "plus_c (w\<lparr>mark_a := a\<rparr>) = plus_c w" "plus_c (w\<lparr>mark_b := b\<rparr>) = plus_c w"
  "plus_c (w\<lparr>tags := T\<rparr>) = plus_c w" "plus_c (w\<lparr>cursor := c\<rparr>) = plus_c w"
  by (simp_all add: plus_c_def fun_eq_iff)

lemma quote_char_not_NL: "quote_char q \<noteq> NL"
  by (cases q) (simp_all add: DQUOTE_def SQUOTE_def NL_def)

text \<open>A found character other than the line break lies in the buffer, before its line's end.\<close>

lemma found_char:
  assumes "tk_search w [c] s e = Some i" "c \<noteq> NL"
  shows "s \<le> i" "i < e" "i < length (buffer w)" "chars w ! i = c" "i < lineend w i"
    "\<forall>j. s \<le> j \<and> j < i \<longrightarrow> chars w ! j \<noteq> c"
proof -
  from assms(1) have a: "s \<le> i" "i < e" "i < end_index w"
    "take (length [c]) (drop i (chars w)) = [c]"
    "\<forall>j. s \<le> j \<and> j < i \<longrightarrow> take (length [c]) (drop j (chars w)) \<noteq> [c]"
    unfolding tk_search_Some_iff by simp_all
  from a(4) have c: "chars w ! i = c" unfolding match1 by simp
  show "s \<le> i" "i < e" "chars w ! i = c" using a c by simp_all
  show "i < length (buffer w)"
  proof (rule ccontr)
    assume "\<not> i < length (buffer w)"
    then have "i = length (buffer w)" using a(3) by (simp add: end_index_def)
    then show False using c assms(2) chars_last by simp
  qed
  show "i < lineend w i" using a(3) c assms(2) by (intro lineend_gt) simp_all
  show "\<forall>j. s \<le> j \<and> j < i \<longrightarrow> chars w ! j \<noteq> c"
  proof (intro allI impI)
    fix j assume j: "s \<le> j \<and> j < i"
    then have "take (length [c]) (drop j (chars w)) \<noteq> [c]" using a(5) by blast
    moreover have "j < end_index w" using j a(3) by simp
    ultimately show "chars w ! j \<noteq> c" unfolding match1 by simp
  qed
qed

text \<open>What one round of the string loop does.\<close>

lemma quote_step_Some:
  assumes "quote_step q w = Some w'"
  obtains (unterminated) i where
      "tk_search w [quote_char q] (mark_b w) (end_index w) = Some i"
      "tk_search w [quote_char q] (Suc i) (lineend w i) = None"
      "w' = w\<lparr>mark_a := i, mark_b := lineend w i,
              tags := (tags w)(Str := tags w Str \<union> {i..<lineend w i})\<rparr>"
  | (closed) i j where
      "tk_search w [quote_char q] (mark_b w) (end_index w) = Some i"
      "tk_search w [quote_char q] (Suc i) (lineend w i) = Some j"
      "w' = w\<lparr>mark_a := i, mark_b := Suc j,
              tags := (tags w)(Str := tags w Str \<union> {i..<Suc j})\<rparr>"
proof -
  from assms obtain i where i: "tk_search w [quote_char q] (mark_b w) (end_index w) = Some i"
    by (auto simp: quote_step_def split: option.splits)
  note f = found_char[OF i quote_char_not_NL]
  have p: "plus_c w i 1 = Suc i" using f(3) by (simp add: plus_c_def end_index_def)
  show thesis
  proof (cases "tk_search w [quote_char q] (Suc i) (lineend w i)")
    case None
    then have "w' = w\<lparr>mark_a := i, mark_b := lineend w i,
              tags := (tags w)(Str := tags w Str \<union> {i..<lineend w i})\<rparr>"
      using assms i p by (simp add: quote_step_def tag_add_def)
    with i None show thesis by (rule unterminated)
  next
    case (Some j)
    note g = found_char[OF Some quote_char_not_NL]
    have "plus_c w j 1 = Suc j" using g(3) by (simp add: plus_c_def end_index_def)
    then have "w' = w\<lparr>mark_a := i, mark_b := Suc j,
              tags := (tags w)(Str := tags w Str \<union> {i..<Suc j})\<rparr>"
      using assms i p Some by (auto simp: quote_step_def tag_add_def Let_def)
    with i Some show thesis by (rule closed)
  qed
qed

lemma quote_step_progress:
  assumes "quote_step q w = Some w'"
  shows "buffer w' = buffer w \<and> cursor w' = cursor w \<and> mark_b w < mark_b w' \<and>
    mark_b w' \<le> length (buffer w)"
  using assms
proof (cases rule: quote_step_Some)
  case (unterminated i)
  note f = found_char[OF unterminated(1) quote_char_not_NL]
  show ?thesis
    using f(1,3,5) lineend_le[of i w] unterminated(3) by simp
next
  case (closed i j)
  note f = found_char[OF closed(1) quote_char_not_NL]
  note g = found_char[OF closed(2) quote_char_not_NL]
  show ?thesis
    using f(1) g(1,3) closed(3) by simp
qed


termination quote_loop
proof (relation "measure (\<lambda>(q, w). end_index w - mark_b w)")
  show "wf (measure (\<lambda>(q, w). end_index w - mark_b w))" by simp
next
  fix q w w' assume "quote_step q w = Some w'"
  from quote_step_progress[OF this]
  show "((q, w'), (q, w)) \<in> measure (\<lambda>(q, w). end_index w - mark_b w)"
    by (auto simp: end_index_def)
qed

lemma HASH_not_NL: "HASH \<noteq> NL"
  by (simp add: HASH_def NL_def)

text \<open>What one round of the comment loop does.\<close>

lemma comment_step_Some:
  assumes "comment_step w = Some w'"
  obtains (tagged) i where
      "tk_search w [HASH] (mark_b w) (end_index w) = Some i"
      "count_list (tk_get w (linestart w i) i) DQUOTE mod 2 = 0"
      "count_list (tk_get w (linestart w i) i) SQUOTE mod 2 = 0"
      "w' = w\<lparr>mark_a := i, mark_b := lineend w i,
              tags := (tags w)(Str := tags w Str - {i..<lineend w i},
                               Comment := tags w Comment \<union> {i..<lineend w i})\<rparr>"
  | (skipped) i where
      "tk_search w [HASH] (mark_b w) (end_index w) = Some i"
      "\<not> (count_list (tk_get w (linestart w i) i) DQUOTE mod 2 = 0 \<and>
          count_list (tk_get w (linestart w i) i) SQUOTE mod 2 = 0)"
      "w' = w\<lparr>mark_b := Suc i\<rparr>"
proof -
  from assms obtain i where i: "tk_search w [HASH] (mark_b w) (end_index w) = Some i"
    by (auto simp: comment_step_def split: option.splits)
  note f = found_char[OF i HASH_not_NL]
  have p: "plus_c w i 1 = Suc i" using f(3) by (simp add: plus_c_def end_index_def)
  show thesis
  proof (cases "count_list (tk_get w (linestart w i) i) DQUOTE mod 2 = 0 \<and>
          count_list (tk_get w (linestart w i) i) SQUOTE mod 2 = 0")
    case True
    then have "w' = w\<lparr>mark_a := i, mark_b := lineend w i,
              tags := (tags w)(Str := tags w Str - {i..<lineend w i},
                               Comment := tags w Comment \<union> {i..<lineend w i})\<rparr>"
      using assms i by (auto simp: comment_step_def tag_add_def tag_remove_def Let_def)
    with i True show thesis by (intro tagged[of i]) simp_all
  next
    case False
    then have "w' = w\<lparr>mark_b := Suc i\<rparr>"
      using assms i p by (auto simp: comment_step_def)
    with i False show thesis by (intro skipped[of i]) simp_all
  qed
qed

lemma comment_step_progress:
  assumes "comment_step w = Some w'"
  shows "buffer w' = buffer w \<and> cursor w' = cursor w \<and> mark_b w < mark_b w' \<and>
    mark_b w' \<le> length (buffer w)"
  using assms
proof (cases rule: comment_step_Some)
  case (tagged i)
  note f = found_char[OF tagged(1) HASH_not_NL]
  show ?thesis using f(1,3,5) lineend_le[of i w] tagged(4) by simp
next
  case (skipped i)
  note f = found_char[OF skipped(1) HASH_not_NL]
  show ?thesis using f(1,3) skipped(3) by simp
qed

termination comment_loop
proof (relation "measure (\<lambda>w. end_index w - mark_b w)")
  show "wf (measure (\<lambda>w. end_index w - mark_b w))" by simp
next
  fix w w' assume "comment_step w = Some w'"
  from comment_step_progress[OF this]
  show "(w', w) \<in> measure (\<lambda>w. end_index w - mark_b w)"
    by (auto simp: end_index_def)
qed


section \<open>The boundary condition\<close>

lemma in_illegals_in_range:
  "0 \<le> i \<Longrightarrow> i < int (length line) \<Longrightarrow>
     in_illegals line i = ([i], Inr (line ! nat i \<in> set illegals))"
  by (simp add: in_illegals_def py_index_def)

lemma whole_line_iff:
  "col + n \<le> length line \<Longrightarrow> line = take n (drop col line) \<longleftrightarrow> col = 0 \<and> length line = n"
proof
  assume a: "col + n \<le> length line" "line = take n (drop col line)"
  then have "length line = length (take n (drop col line))" by simp
  also have "\<dots> = n" using a(1) by simp
  finally show "col = 0 \<and> length line = n" using a(1) by simp
qed simp

lemma delimited_value:
  assumes "col + n \<le> length line"
  shows "snd (delimited line (int col) (int n)) = Inr (whole_token line col n)"
proof -
  consider (a) "col = 0" "length line = n" | (b) "col = 0" "n < length line"
    | (c) "0 < col" "col + n = length line" | (d) "0 < col" "col + n < length line"
    using assms by linarith
  then show ?thesis
  proof cases
    case a
    then show ?thesis
      by (simp add: delimited_def or_t_def and_t_def pure_t_def whole_token_def)
  next
    case b
    then have "in_illegals line (int n) = ([int n], Inr (line ! n \<in> set illegals))"
      using in_illegals_in_range[of "int n" line] by simp
    with b whole_line_iff[OF assms] show ?thesis
      by (auto simp add: delimited_def or_t_def and_t_def pure_t_def whole_token_def split: bool.splits)
  next
    case c
    then have "in_illegals line (int col - 1) = ([int col - 1], Inr (line ! (col - 1) \<in> set illegals))"
      using in_illegals_in_range[of "int col - 1" line] by (simp add: nat_diff_distrib')
    with c whole_line_iff[OF assms] show ?thesis
      by (auto simp add: delimited_def or_t_def and_t_def pure_t_def whole_token_def split: bool.splits)
  next
    case d
    then have "in_illegals line (int col - 1) = ([int col - 1], Inr (line ! (col - 1) \<in> set illegals))"
      "in_illegals line (int col + int n) = ([int col + int n], Inr (line ! (col + n) \<in> set illegals))"
      using in_illegals_in_range[of "int col - 1" line] in_illegals_in_range[of "int col + int n" line]
      by (simp_all add: nat_diff_distrib' nat_add_distrib)
    with d whole_line_iff[OF assms] show ?thesis
      by (auto simp add: delimited_def or_t_def and_t_def pure_t_def whole_token_def split: bool.splits)
  qed
qed

lemma delimited_reads:
  assumes "col + n \<le> length line" "r \<in> set (fst (delimited line (int col) (int n)))"
  shows "0 \<le> r \<and> r < int (length line)"
proof -
  consider (a) "col = 0" "length line = n" | (b) "col = 0" "n < length line"
    | (c) "0 < col" "col + n = length line" | (d) "0 < col" "col + n < length line"
    using assms by linarith
  then show ?thesis
  proof cases
    case a
    then show ?thesis using assms(2)
      by (simp add: delimited_def or_t_def and_t_def pure_t_def)
  next
    case b
    then have "in_illegals line (int n) = ([int n], Inr (line ! n \<in> set illegals))"
      using in_illegals_in_range[of "int n" line] by simp
    with b show ?thesis using assms(2)
      by (auto simp add: delimited_def or_t_def and_t_def pure_t_def split: bool.splits if_splits)
  next
    case c
    then have "in_illegals line (int col - 1) = ([int col - 1], Inr (line ! (col - 1) \<in> set illegals))"
      using in_illegals_in_range[of "int col - 1" line] by (simp add: nat_diff_distrib')
    with c show ?thesis using assms(2)
      by (auto simp add: delimited_def or_t_def and_t_def pure_t_def split: bool.splits if_splits)
  next
    case d
    then have "in_illegals line (int col - 1) = ([int col - 1], Inr (line ! (col - 1) \<in> set illegals))"
      "in_illegals line (int col + int n) = ([int col + int n], Inr (line ! (col + n) \<in> set illegals))"
      using in_illegals_in_range[of "int col - 1" line] in_illegals_in_range[of "int col + int n" line]
      by (simp_all add: nat_diff_distrib' nat_add_distrib)
    with d show ?thesis using assms(2)
      by (auto simp add: delimited_def or_t_def and_t_def pure_t_def split: bool.splits if_splits)
  qed
qed



lemma found_token:
  assumes "tk_search w kw s e = Some i" "NL \<notin> set kw"
  shows "s \<le> i" "i \<le> length (buffer w)" "i + length kw \<le> lineend w i"
    "take (length kw) (drop i (chars w)) = kw"
proof -
  let ?n = "length kw"
  from assms(1) have a: "s \<le> i" "i < end_index w" "take ?n (drop i (chars w)) = kw"
    unfolding tk_search_Some_iff by simp_all
  show "s \<le> i" "take ?n (drop i (chars w)) = kw" using a by simp_all
  show ib: "i \<le> length (buffer w)" using a(2) by (simp add: end_index_def)
  have "length (take ?n (drop i (chars w))) = ?n" using a(3) by simp
  then have fit: "i + ?n \<le> end_index w" using a(2) by simp
  show "i + ?n \<le> lineend w i"
  proof (rule ccontr)
    assume "\<not> i + ?n \<le> lineend w i"
    then have l: "lineend w i - i < ?n" "i \<le> lineend w i" using lineend_ge[of i w] by simp_all
    have "kw ! (lineend w i - i) = take ?n (drop i (chars w)) ! (lineend w i - i)"
      using a(3) by simp
    also have "\<dots> = chars w ! lineend w i" using l fit by simp
    also have "\<dots> = NL" using ib by (rule lineend_is_NL)
    finally have "NL \<in> set kw" using l(1) nth_mem by metis
    with assms(2) show False by simp
  qed
qed

lemma line_length:
  assumes "i \<le> length (buffer w)"
  shows "length (tk_get w (linestart w i) (lineend w i)) = lineend w i - linestart w i"
  using lineend_le[OF assms] by (simp add: tk_get_def end_index_def)

lemma line_nth:
  assumes "i \<le> length (buffer w)" "k < lineend w i - linestart w i"
  shows "tk_get w (linestart w i) (lineend w i) ! k = chars w ! (linestart w i + k)"
  using lineend_le[OF assms(1)] assms(2) by (simp add: tk_get_def end_index_def)

lemma token_in_line:
  assumes "tk_search w kw s e = Some i" "NL \<notin> set kw"
  shows "(i - linestart w i) + length kw \<le> length (tk_get w (linestart w i) (lineend w i))"
  using found_token(2,3)[OF assms] linestart_le[of w i] by (simp add: line_length)

lemma token_step_found:
  assumes "NL \<notin> set kw" "tk_search w kw (mark_b w) (end_index w) = Some i"
  shows "token_step tg kw w =
     Inr (Some (if whole_token (tk_get w (linestart w i) (lineend w i)) (i - linestart w i) (length kw)
       then w\<lparr>mark_a := i, mark_b := i + length kw,
              tags := (tags w)(tg := tags w tg \<union> {i..<i + length kw})\<rparr>
       else w\<lparr>mark_a := i, mark_b := i + length kw\<rparr>))"
proof -
  note f = found_token[OF assms(2,1)]
  have p: "plus_c w i (length kw) = i + length kw"
    using f(2,3) lineend_le[of i w] by (simp add: plus_c_def end_index_def)
  show ?thesis
    using assms(2) p delimited_value[OF token_in_line[OF assms(2,1)]]
    by (simp add: token_step_def tag_add_def Let_def)
qed

lemma token_step_not_found:
  "tk_search w kw (mark_b w) (end_index w) = None \<Longrightarrow> token_step tg kw w = Inr None"
  by (simp add: token_step_def)

lemma token_step_cases [consumes 1, case_names stop tag skip]:
  assumes "NL \<notin> set kw"
  obtains (stop) "tk_search w kw (mark_b w) (end_index w) = None" "token_step tg kw w = Inr None"
  | (tag) i where "tk_search w kw (mark_b w) (end_index w) = Some i"
      "whole_token (tk_get w (linestart w i) (lineend w i)) (i - linestart w i) (length kw)"
      "token_step tg kw w = Inr (Some (w\<lparr>mark_a := i, mark_b := i + length kw,
              tags := (tags w)(tg := tags w tg \<union> {i..<i + length kw})\<rparr>))"
  | (skip) i where "tk_search w kw (mark_b w) (end_index w) = Some i"
      "\<not> whole_token (tk_get w (linestart w i) (lineend w i)) (i - linestart w i) (length kw)"
      "token_step tg kw w = Inr (Some (w\<lparr>mark_a := i, mark_b := i + length kw\<rparr>))"
proof (cases "tk_search w kw (mark_b w) (end_index w)")
  case None
  then show thesis using stop token_step_not_found by blast
next
  case (Some i)
  show thesis
  proof (cases "whole_token (tk_get w (linestart w i) (lineend w i)) (i - linestart w i) (length kw)")
    case True
    then show thesis using tag[OF Some] token_step_found[OF assms Some, of tg] by simp
  next
    case False
    then show thesis using skip[OF Some] token_step_found[OF assms Some, of tg] by simp
  qed
qed

lemma token_step_progress:
  assumes "token_ok kw" "token_step tg kw w = Inr (Some w')"
  shows "buffer w' = buffer w \<and> cursor w' = cursor w \<and> mark_b w < mark_b w' \<and>
    mark_b w' \<le> length (buffer w)"
proof -
  have nl: "NL \<notin> set kw" using assms(1) by (simp add: token_ok_def)
  obtain m where ne: "length kw = Suc m" using assms(1) by (cases kw) (auto simp: token_ok_def)
  from nl show ?thesis
  proof (cases rule: token_step_cases[where w=w and tg=tg])
    case stop
    then show ?thesis using assms(2) by simp
  next
    case (tag i)
    note f = found_token[OF tag(1) nl]
    show ?thesis using f(1,2,3) lineend_le[OF f(2)] ne tag(3) assms(2) by auto
  next
    case (skip i)
    note f = found_token[OF skip(1) nl]
    show ?thesis using f(1,2,3) lineend_le[OF f(2)] ne skip(3) assms(2) by auto
  qed
qed

lemma token_step_no_error:
  assumes "NL \<notin> set kw"
  shows "token_step tg kw w \<noteq> Inl e"
  using assms by (cases rule: token_step_cases[where w=w and tg=tg]) simp_all

text \<open>The rule of the token loop: it returns, in a state in which the search fails.\<close>

lemma token_loop_rule:
  assumes ok: "token_ok kw" and P: "P w"
    and step: "\<And>x x'. P x \<Longrightarrow> token_step tg kw x = Inr (Some x') \<Longrightarrow> P x'"
  shows "\<exists>r. token_loop tg kw w = Some (Inr r) \<and> P r \<and> token_step tg kw r = Inr None"
  using P
proof (induction "end_index w - mark_b w" arbitrary: w rule: less_induct)
  case less
  have nl: "NL \<notin> set kw" using ok by (simp add: token_ok_def)
  show ?case
  proof (cases "token_step tg kw w")
    case (Inl e)
    then show ?thesis using token_step_no_error[OF nl] by blast
  next
    case (Inr o1)
    show ?thesis
    proof (cases o1)
      case None
      then have "token_loop tg kw w = Some (Inr w)" using Inr by (subst token_loop.simps) simp
      then show ?thesis using less.prems Inr None by simp
    next
      case (Some w')
      then have s: "token_step tg kw w = Inr (Some w')" using Inr by simp
      note pr = token_step_progress[OF ok s]
      have "end_index w' - mark_b w' < end_index w - mark_b w"
        using pr by (auto simp: end_index_def)
      moreover have "P w'" using step[OF less.prems s] .
      ultimately obtain r where "token_loop tg kw w' = Some (Inr r)" "P r"
        "token_step tg kw r = Inr None"
        using less.hyps by blast
      moreover have "token_loop tg kw w = token_loop tg kw w'"
        using s by (subst token_loop.simps) simp
      ultimately show ?thesis by simp
    qed
  qed
qed

lemma token_scan_rule:
  assumes ok: "list_all token_ok kws" and P: "P w"
    and step: "\<And>kw x x'. kw \<in> set kws \<Longrightarrow> P x \<Longrightarrow> token_step tg kw x = Inr (Some x') \<Longrightarrow> P x'"
    and reset: "\<And>x. P x \<Longrightarrow> P (x\<lparr>mark_a := 0, mark_b := 0\<rparr>)"
  shows "\<exists>r. token_scan tg kws w = Some (Inr r) \<and> P r"
  using ok P step
proof (induction kws arbitrary: w)
  case Nil
  then show ?case by simp
next
  case (Cons kw kws)
  have "token_ok kw" using Cons.prems(1) by simp
  moreover have "P (w\<lparr>mark_a := 0, mark_b := 0\<rparr>)" using Cons.prems(2) by (rule reset)
  moreover have "\<And>x x'. P x \<Longrightarrow> token_step tg kw x = Inr (Some x') \<Longrightarrow> P x'"
    using Cons.prems(3)[of kw] by simp
  ultimately obtain r where r: "token_loop tg kw (w\<lparr>mark_a := 0, mark_b := 0\<rparr>) = Some (Inr r)" "P r"
    using token_loop_rule[of kw P "w\<lparr>mark_a := 0, mark_b := 0\<rparr>" tg] by blast
  have "list_all token_ok kws" using Cons.prems(1) by simp
  moreover have "\<And>k x x'. k \<in> set kws \<Longrightarrow> P x \<Longrightarrow> token_step tg k x = Inr (Some x') \<Longrightarrow> P x'"
    using Cons.prems(3) by (meson list.set_intros(2))
  ultimately obtain r' where "token_scan tg kws r = Some (Inr r')" "P r'"
    using Cons.IH[OF _ r(2)] by blast
  then show ?case using r(1) by simp
qed

text \<open>The rules of the string loop and of the comment loop.\<close>

lemma quote_loop_rule:
  assumes "P w" "\<And>x x'. P x \<Longrightarrow> quote_step q x = Some x' \<Longrightarrow> P x'"
  shows "P (quote_loop q w) \<and> quote_step q (quote_loop q w) = None"
  using assms
proof (induction q w rule: quote_loop.induct)
  case (1 q w)
  show ?case
  proof (cases "quote_step q w")
    case None
    then show ?thesis using "1.prems"(1) by simp
  next
    case (Some w')
    have "P w'" using "1.prems"(2)[OF "1.prems"(1) Some] .
    then show ?thesis using "1.IH"[OF Some _ "1.prems"(2)] Some by simp
  qed
qed

lemma comment_loop_rule:
  assumes "P w" "\<And>x x'. P x \<Longrightarrow> comment_step x = Some x' \<Longrightarrow> P x'"
  shows "P (comment_loop w) \<and> comment_step (comment_loop w) = None"
  using assms(1)
proof (induction w rule: comment_loop.induct)
  case (1 w)
  show ?case
  proof (cases "comment_step w")
    case None
    then show ?thesis using "1.prems" by simp
  next
    case (Some w')
    then show ?thesis using "1.IH"[OF Some] assms(2)[OF "1.prems" Some] by simp
  qed
qed

lemma clear_tags_frame [simp]:
  "buffer (clear_tags w) = buffer w" "cursor (clear_tags w) = cursor w"
  "mark_a (clear_tags w) = mark_a w" "mark_b (clear_tags w) = mark_b w"
  by (simp_all add: clear_tags_def tag_remove_def)

lemma reset_marks_frame [simp]:
  "buffer (reset_marks w) = buffer w" "cursor (reset_marks w) = cursor w"
  "tags (reset_marks w) = tags w" "mark_b (reset_marks w) = 0" "mark_a (reset_marks w) = 0"
  by (simp_all add: reset_marks_def)

text \<open>The rule of the whole re-tagging: with well-formed tokens it returns a widget.\<close>

lemma retag_rule:
  assumes ok: "catalog_ok syn" and P: "P (clear_tags w)"
    and tstep: "\<And>tg kw x x'. token_ok kw \<Longrightarrow> P x \<Longrightarrow> token_step tg kw x = Inr (Some x') \<Longrightarrow> P x'"
    and qstep: "\<And>q x x'. P x \<Longrightarrow> quote_step q x = Some x' \<Longrightarrow> P x'"
    and cstep: "\<And>x x'. P x \<Longrightarrow> comment_step x = Some x' \<Longrightarrow> P x'"
    and reset: "\<And>x. P x \<Longrightarrow> P (x\<lparr>mark_a := 0, mark_b := 0\<rparr>)"
  shows "\<exists>r. retag syn w = Some (Inr r) \<and> P r"
proof -
  have k: "list_all token_ok (syntax_keywords syn)" and b: "list_all token_ok (syntax_builtins syn)"
    using ok by (simp_all add: catalog_ok_def)
  have "\<exists>r. token_scan Kw (syntax_keywords syn) (clear_tags w) = Some (Inr r) \<and> P r"
  proof (rule token_scan_rule[where P=P and w="clear_tags w", OF k P])
    show "\<And>kw x x'. kw \<in> set (syntax_keywords syn) \<Longrightarrow> P x \<Longrightarrow>
        token_step Kw kw x = Inr (Some x') \<Longrightarrow> P x'"
      using tstep k by (auto simp: list_all_iff)
    show "\<And>x. P x \<Longrightarrow> P (x\<lparr>mark_a := 0, mark_b := 0\<rparr>)" by (rule reset)
  qed
  then obtain w1 where w1: "token_scan Kw (syntax_keywords syn) (clear_tags w) = Some (Inr w1)" "P w1"
    by blast
  have "\<exists>r. token_scan Bi (syntax_builtins syn) w1 = Some (Inr r) \<and> P r"
  proof (rule token_scan_rule[where P=P and w=w1, OF b w1(2)])
    show "\<And>kw x x'. kw \<in> set (syntax_builtins syn) \<Longrightarrow> P x \<Longrightarrow>
        token_step Bi kw x = Inr (Some x') \<Longrightarrow> P x'"
      using tstep b by (auto simp: list_all_iff)
    show "\<And>x. P x \<Longrightarrow> P (x\<lparr>mark_a := 0, mark_b := 0\<rparr>)" by (rule reset)
  qed
  then obtain w2 where w2: "token_scan Bi (syntax_builtins syn) w1 = Some (Inr w2)" "P w2"
    by blast
  have r: "\<And>x. P x \<Longrightarrow> P (reset_marks x)" using reset by (simp add: reset_marks_def)
  have "P (quote_loop Double (reset_marks w2))"
    using quote_loop_rule[of P _ Double] r[OF w2(2)] qstep by blast
  then have "P (quote_loop Single (reset_marks (quote_loop Double (reset_marks w2))))"
    using quote_loop_rule[of P _ Single] r qstep by blast
  then have "P (strings_and_comments w2)"
    unfolding strings_and_comments_def using comment_loop_rule[of P] r cstep by blast
  then show ?thesis using w1 w2 by (simp add: retag_def)
qed

lemma retag_frame:
  assumes "catalog_ok syn"
  shows "\<exists>r. retag syn w = Some (Inr r) \<and> buffer r = buffer w \<and> cursor r = cursor w"
proof (rule retag_rule[OF assms, of "\<lambda>x. buffer x = buffer w \<and> cursor x = cursor w"])
  show "buffer (clear_tags w) = buffer w \<and> cursor (clear_tags w) = cursor w" by simp
qed (auto dest: token_step_progress quote_step_progress comment_step_progress)

lemma tk_insert_buffer:
  "buffer (tk_insert s w) =
     take (min (cursor w) (length (buffer w))) (buffer w) @ s @
     drop (min (cursor w) (length (buffer w))) (buffer w)"
  "cursor (tk_insert s w) = min (cursor w) (length (buffer w)) + length s"
  by (simp_all add: tk_insert_def Let_def)

text \<open>The indentation inserts spaces at the cursor, and nothing else.\<close>

lemma tk_insert_twice:
  "buffer (tk_insert t (tk_insert s w)) =
     take (min (cursor w) (length (buffer w))) (buffer w) @ s @ t @
     drop (min (cursor w) (length (buffer w))) (buffer w)"
  by (simp add: tk_insert_def Let_def)

lemma auto_indent_buffer:
  "\<exists>k. buffer (auto_indent w) =
     take (min (cursor w) (length (buffer w))) (buffer w) @ replicate k SPACE @
     drop (min (cursor w) (length (buffer w))) (buffer w)"
proof -
  define k where "k = 4 * ((length (tk_get w (linestart w (minus_c (cursor w) 1)) (lineend w (minus_c (cursor w) 1)))
     - length (lstrip (tk_get w (linestart w (minus_c (cursor w) 1)) (lineend w (minus_c (cursor w) 1))))) div 4)"
  define w1 where "w1 = tk_insert (replicate k SPACE) w"
  let ?c = "min (cursor w) (length (buffer w))"
  have b1: "buffer w1 = take ?c (buffer w) @ replicate k SPACE @ drop ?c (buffer w)"
    by (simp add: w1_def tk_insert_buffer)
  have b2: "buffer (tk_insert (replicate 4 SPACE) w1) =
      take ?c (buffer w) @ replicate (k + 4) SPACE @ drop ?c (buffer w)"
    unfolding w1_def tk_insert_twice by (simp add: replicate_add)
  have "auto_indent w = w1 \<or> auto_indent w = tk_insert (replicate 4 SPACE) w1"
    unfolding auto_indent_def Let_def w1_def k_def by simp
  then show ?thesis using b1 b2 by metis
qed










text \<open>Widgets with the same buffer answer the queries alike.\<close>

lemma same_buffer:
  assumes "buffer x = buffer w"
  shows "chars x = chars w" "end_index x = end_index w" "lineend x = lineend w"
    "linestart x = linestart w" "tk_get x = tk_get w" "tk_search x = tk_search w"
    "plus_c x = plus_c w" "quotes_before c x = quotes_before c w"
    "outside_quotes x = outside_quotes w" "comment_start x = comment_start w"
    "comment_spans x = comment_spans w"
proof -
  show c: "chars x = chars w" and e: "end_index x = end_index w"
    using assms by (simp_all add: chars_def end_index_def)
  show le: "lineend x = lineend w" and ls: "linestart x = linestart w"
    and g: "tk_get x = tk_get w"
    using c by (simp_all add: lineend_def linestart_def tk_get_def fun_eq_iff)
  show "tk_search x = tk_search w" "plus_c x = plus_c w"
    using c e by (simp_all add: tk_search_def plus_c_def fun_eq_iff)
  show qb: "quotes_before c x = quotes_before c w" for c
    using g ls by (simp add: quotes_before_def fun_eq_iff)
  show oq: "outside_quotes x = outside_quotes w"
    using qb by (simp add: outside_quotes_def fun_eq_iff)
  show cs: "comment_start x = comment_start w"
    using oq assms by (simp add: comment_start_def fun_eq_iff)
  show "comment_spans x = comment_spans w"
    using cs le by (simp add: comment_spans_def)
qed

lemma outside_quotes_code:
  "(count_list (tk_get w (linestart w i) i) DQUOTE mod 2 = 0 \<and>
    count_list (tk_get w (linestart w i) i) SQUOTE mod 2 = 0) \<longleftrightarrow> outside_quotes w i"
  by (simp add: outside_quotes_def quotes_before_def even_iff_mod_2_eq_zero)


lemma spans_before_0 [simp]: "spans_before w 0 = {}"
  by (simp add: spans_before_def)

lemma spans_before_skip:
  assumes "b \<le> b'" "\<forall>q. b \<le> q \<and> q < b' \<longrightarrow> \<not> comment_start w q"
  shows "spans_before w b' = spans_before w b"
proof -
  have "q < b' \<and> comment_start w q \<longleftrightarrow> q < b \<and> comment_start w q" for q
    using assms by (metis le_less_trans not_le order.strict_trans2)
  then show ?thesis unfolding spans_before_def by blast
qed

lemma spans_before_tagged:
  assumes "b \<le> i" "comment_start w i" "\<forall>q. b \<le> q \<and> q < i \<longrightarrow> \<not> comment_start w q"
  shows "spans_before w (lineend w i) = spans_before w b \<union> {i..<lineend w i}"
proof (intro set_eqI iffI)
  fix p assume "p \<in> spans_before w (lineend w i)"
  then obtain q where q: "q < lineend w i" "comment_start w q" "q \<le> p" "p < lineend w q"
    unfolding spans_before_def by blast
  have ib: "i \<le> length (buffer w)" using assms(2) by (simp add: comment_start_def)
  consider "q < b" | "b \<le> q" "q < i" | "i \<le> q" by linarith
  then show "p \<in> spans_before w b \<union> {i..<lineend w i}"
  proof cases
    case 1
    then show ?thesis using q unfolding spans_before_def by blast
  next
    case 2
    then show ?thesis using assms(3) q(2) by blast
  next
    case 3
    then have "lineend w q = lineend w i" using q(1) ib by (intro lineend_same) simp_all
    then show ?thesis using 3 q by simp
  qed
next
  fix p assume "p \<in> spans_before w b \<union> {i..<lineend w i}"
  then consider "p \<in> spans_before w b" | "i \<le> p" "p < lineend w i" by auto
  then show "p \<in> spans_before w (lineend w i)"
  proof cases
    case 1
    then obtain q where "q < b" "comment_start w q" "q \<le> p" "p < lineend w q"
      unfolding spans_before_def by blast
    moreover have "b \<le> lineend w i" using assms(1) lineend_ge[of i w] by simp
    ultimately show ?thesis unfolding spans_before_def by force
  next
    case 2
    then have "i < lineend w i" by simp
    then show ?thesis using 2 assms(2) unfolding spans_before_def by blast
  qed
qed

lemma spans_before_all:
  assumes "\<forall>q. b \<le> q \<longrightarrow> \<not> comment_start w q"
  shows "spans_before w b = comment_spans w"
  using assms unfolding spans_before_def comment_spans_def by (metis not_le)

lemma found_hash:
  assumes "tk_search w [HASH] b (end_index w) = Some i"
  shows "b \<le> i" "i < length (buffer w)" "buffer w ! i = HASH"
    "\<forall>q. b \<le> q \<and> q < i \<longrightarrow> \<not> comment_start w q"
proof -
  note f = found_char[OF assms HASH_not_NL]
  show "b \<le> i" "i < length (buffer w)" using f by simp_all
  show "buffer w ! i = HASH" using f(3,4) by (simp add: chars_def nth_append)
  show "\<forall>q. b \<le> q \<and> q < i \<longrightarrow> \<not> comment_start w q"
  proof (intro allI impI)
    fix q assume q: "b \<le> q \<and> q < i"
    then have "chars w ! q \<noteq> HASH" using f(6) by blast
    moreover have "q < length (buffer w)" using q f(3) by simp
    ultimately show "\<not> comment_start w q" by (simp add: comment_start_def chars_def nth_append)
  qed
qed

lemma no_hash:
  assumes "tk_search w [HASH] b (end_index w) = None"
  shows "\<forall>q. b \<le> q \<longrightarrow> \<not> comment_start w q"
proof (intro allI impI)
  fix q assume q: "b \<le> q"
  show "\<not> comment_start w q"
  proof
    assume c: "comment_start w q"
    then have "q < end_index w" "chars w ! q = HASH"
      by (simp_all add: comment_start_def chars_def nth_append end_index_def)
    then have "take (length [HASH]) (drop q (chars w)) = [HASH]" unfolding match1 by simp
    then show False using assms q \<open>q < end_index w\<close> unfolding tk_search_None_iff by blast
  qed
qed

lemma comment_inv_step:
  assumes "comment_inv w x" "comment_step x = Some x'"
  shows "comment_inv w x'"
  using assms(2)
proof (cases rule: comment_step_Some)
  case (tagged i)
  have inv: "buffer x = buffer w" "cursor x = cursor w" "tags x Kw = tags w Kw"
    "tags x Bi = tags w Bi"
    "tags x Comment = tags w Comment \<union> spans_before w (mark_b x)"
    "tags x Str = tags w Str - spans_before w (mark_b x)"
    using assms(1) by (simp_all add: comment_inv_def)
  note sb = same_buffer[OF inv(1)]
  have s: "tk_search w [HASH] (mark_b x) (end_index w) = Some i"
    using tagged(1) by (simp add: sb)
  note f = found_hash[OF s]
  have "outside_quotes w i"
    using tagged(2,3) unfolding sb outside_quotes_code[symmetric] by simp
  then have cs: "comment_start w i" using f(2,3) by (simp add: comment_start_def)
  have sp: "spans_before w (lineend w i) = spans_before w (mark_b x) \<union> {i..<lineend w i}"
    using f(1) cs f(4) by (rule spans_before_tagged)
  have x': "buffer x' = buffer w" "cursor x' = cursor w" "mark_b x' = lineend w i"
    "tags x' Kw = tags w Kw" "tags x' Bi = tags w Bi"
    "tags x' Comment = tags x Comment \<union> {i..<lineend w i}"
    "tags x' Str = tags x Str - {i..<lineend w i}"
    using inv(1-4) by (simp_all add: tagged(4) sb)
  have "tags x' Comment = tags w Comment \<union> spans_before w (mark_b x')"
    unfolding x' sp inv(5) by blast
  moreover have "tags x' Str = tags w Str - spans_before w (mark_b x')"
    unfolding x' sp inv(6) by blast
  ultimately show ?thesis unfolding comment_inv_def using x'(1,2,4,5) by blast
next
  case (skipped i)
  have inv: "buffer x = buffer w" "cursor x = cursor w" "tags x Kw = tags w Kw"
    "tags x Bi = tags w Bi"
    "tags x Comment = tags w Comment \<union> spans_before w (mark_b x)"
    "tags x Str = tags w Str - spans_before w (mark_b x)"
    using assms(1) by (simp_all add: comment_inv_def)
  note sb = same_buffer[OF inv(1)]
  have s: "tk_search w [HASH] (mark_b x) (end_index w) = Some i"
    using skipped(1) by (simp add: sb)
  note f = found_hash[OF s]
  have "\<not> outside_quotes w i"
    using skipped(2) unfolding sb outside_quotes_code .
  then have "\<not> comment_start w i" by (simp add: comment_start_def)
  then have "\<forall>q. mark_b x \<le> q \<and> q < Suc i \<longrightarrow> \<not> comment_start w q"
    using f(4) less_Suc_eq by blast
  then have sp: "spans_before w (Suc i) = spans_before w (mark_b x)"
    using f(1) by (intro spans_before_skip) simp_all
  have x': "buffer x' = buffer w" "cursor x' = cursor w" "mark_b x' = Suc i"
    "tags x' = tags x"
    using inv(1-2) by (simp_all add: skipped(3))
  show ?thesis unfolding comment_inv_def x' sp using inv(3-6) by blast
qed

lemma comment_step_None:
  assumes "comment_step x = None"
  shows "tk_search x [HASH] (mark_b x) (end_index x) = None"
proof (cases "tk_search x [HASH] (mark_b x) (end_index x)")
  case None
  then show ?thesis .
next
  case (Some i)
  then have "comment_step x \<noteq> None" by (simp add: comment_step_def Let_def)
  then show ?thesis using assms by simp
qed

text \<open>The comment loop, started at the beginning, tags exactly the comments.\<close>

lemma comment_loop_result:
  assumes "mark_b w = 0"
  shows "buffer (comment_loop w) = buffer w" "cursor (comment_loop w) = cursor w"
    "tags (comment_loop w) Kw = tags w Kw" "tags (comment_loop w) Bi = tags w Bi"
    "tags (comment_loop w) Comment = tags w Comment \<union> comment_spans w"
    "tags (comment_loop w) Str = tags w Str - comment_spans w"
proof -
  have i0: "comment_inv w w" using assms by (simp add: comment_inv_def)
  have "comment_inv w (comment_loop w) \<and> comment_step (comment_loop w) = None"
    using i0 by (rule comment_loop_rule[where P="comment_inv w"]) (rule comment_inv_step)
  then have r: "comment_inv w (comment_loop w)" "comment_step (comment_loop w) = None"
    by simp_all
  have bx: "buffer (comment_loop w) = buffer w" using r(1) by (simp add: comment_inv_def)
  have "tk_search (comment_loop w) [HASH] (mark_b (comment_loop w)) (end_index (comment_loop w)) = None"
    using r(2) by (rule comment_step_None)
  then have "tk_search w [HASH] (mark_b (comment_loop w)) (end_index w) = None"
    unfolding same_buffer[OF bx] .
  then have "\<forall>q. mark_b (comment_loop w) \<le> q \<longrightarrow> \<not> comment_start w q" by (rule no_hash)
  then have "spans_before w (mark_b (comment_loop w)) = comment_spans w"
    by (rule spans_before_all)
  then show "buffer (comment_loop w) = buffer w" "cursor (comment_loop w) = cursor w"
    "tags (comment_loop w) Kw = tags w Kw" "tags (comment_loop w) Bi = tags w Bi"
    "tags (comment_loop w) Comment = tags w Comment \<union> comment_spans w"
    "tags (comment_loop w) Str = tags w Str - comment_spans w"
    using r(1) by (simp_all add: comment_inv_def)
qed

lemma token_step_tags:
  assumes "NL \<notin> set kw" "token_step tg kw x = Inr (Some x')"
  shows "\<exists>A. A \<subseteq> {..<length (buffer x)} \<and> tags x' = (tags x)(tg := tags x tg \<union> A)"
  using assms(1)
proof (cases rule: token_step_cases[where w=x and tg=tg])
  case stop
  then show ?thesis using assms(2) by simp
next
  case (tag i)
  note f = found_token[OF tag(1) assms(1)]
  have "{i..<i + length kw} \<subseteq> {..<length (buffer x)}"
    using f(3) lineend_le[OF f(2)] by auto
  moreover have "tags x' = (tags x)(tg := tags x tg \<union> {i..<i + length kw})"
    using tag(3) assms(2) by auto
  ultimately show ?thesis by blast
next
  case (skip i)
  have "tags x' = (tags x)(tg := tags x tg \<union> {})" using skip(3) assms(2) by auto
  then show ?thesis by blast
qed

lemma quote_step_tags:
  assumes "quote_step q x = Some x'"
  shows "\<exists>A. A \<subseteq> {p. p < length (buffer x) \<and> buffer x ! p \<noteq> NL} \<and>
     tags x' = (tags x)(Str := tags x Str \<union> A)"
  using assms
proof (cases rule: quote_step_Some)
  case (unterminated i)
  note f = found_char[OF unterminated(1) quote_char_not_NL]
  have ib: "i \<le> length (buffer x)" using f(3) by simp
  have "{i..<lineend x i} \<subseteq> {p. p < length (buffer x) \<and> buffer x ! p \<noteq> NL}"
  proof
    fix p assume "p \<in> {i..<lineend x i}"
    then have p: "i \<le> p" "p < lineend x i" by simp_all
    then have "chars x ! p \<noteq> NL" by (rule lineend_no_NL)
    moreover have "p < length (buffer x)" using p(2) lineend_le[OF ib] by simp
    ultimately show "p \<in> {p. p < length (buffer x) \<and> buffer x ! p \<noteq> NL}"
      by (simp add: chars_def nth_append)
  qed
  moreover have "tags x' = (tags x)(Str := tags x Str \<union> {i..<lineend x i})"
    using unterminated(3) by simp
  ultimately show ?thesis by blast
next
  case (closed i j)
  note f = found_char[OF closed(1) quote_char_not_NL]
  note g = found_char[OF closed(2) quote_char_not_NL]
  have "{i..<Suc j} \<subseteq> {p. p < length (buffer x) \<and> buffer x ! p \<noteq> NL}"
  proof
    fix p assume "p \<in> {i..<Suc j}"
    then have p: "i \<le> p" "p < lineend x i" using g(2) by simp_all
    then have "chars x ! p \<noteq> NL" by (rule lineend_no_NL)
    moreover have "p < length (buffer x)" using \<open>p \<in> {i..<Suc j}\<close> g(3) by simp
    ultimately show "p \<in> {p. p < length (buffer x) \<and> buffer x ! p \<noteq> NL}"
      by (simp add: chars_def nth_append)
  qed
  moreover have "tags x' = (tags x)(Str := tags x Str \<union> {i..<Suc j})"
    using closed(3) by simp
  ultimately show ?thesis by blast
qed

lemma pre_inv_clear:
  assumes "tags_in_range w"
  shows "pre_inv w (clear_tags w)"
proof -
  have "tags w tg - {0..<end_index w} = {}" for tg
  proof -
    have "tags w tg \<subseteq> {..<end_index w}" using assms unfolding tags_in_range_def by blast
    then show ?thesis by auto
  qed
  then have "tags (clear_tags w) tg = {}" for tg
    by (cases tg) (simp_all add: clear_tags_def tag_remove_def)
  then show ?thesis by (simp add: pre_inv_def)
qed

lemma pre_inv_token:
  assumes "pre_inv w x" "token_ok kw" "tg = Kw \<or> tg = Bi" "token_step tg kw x = Inr (Some x')"
  shows "pre_inv w x'"
proof -
  have nl: "NL \<notin> set kw" using assms(2) by (simp add: token_ok_def)
  from token_step_tags[OF nl assms(4)] obtain A where
    A: "A \<subseteq> {..<length (buffer x)}" "tags x' = (tags x)(tg := tags x tg \<union> A)" by blast
  note pr = token_step_progress[OF assms(2,4)]
  show ?thesis using assms(1,3) A pr unfolding pre_inv_def by auto
qed

lemma pre_inv_quote:
  assumes "pre_inv w x" "quote_step q x = Some x'"
  shows "pre_inv w x'"
proof -
  from quote_step_tags[OF assms(2)] obtain A where
    A: "A \<subseteq> {p. p < length (buffer x) \<and> buffer x ! p \<noteq> NL}"
      "tags x' = (tags x)(Str := tags x Str \<union> A)" by blast
  note pr = quote_step_progress[OF assms(2)]
  show ?thesis using assms(1) A pr unfolding pre_inv_def by auto
qed

lemma pre_inv_reset:
  "pre_inv w x \<Longrightarrow> pre_inv w (x\<lparr>mark_a := 0, mark_b := 0\<rparr>)"
  by (simp add: pre_inv_def)

lemma tk_insert_in_range:
  assumes "tags_in_range w"
  shows "tags_in_range (tk_insert s w)"
proof -
  define c where "c = min (cursor w) (length (buffer w))"
  have e: "end_index (tk_insert s w) = end_index w + length s"
    by (simp add: end_index_def tk_insert_buffer)
  have "shift_tag c (length s) (tags w tg) \<subseteq> {..<end_index w + length s}" for tg
  proof
    fix p assume p: "p \<in> shift_tag c (length s) (tags w tg)"
    have t: "tags w tg \<subseteq> {..<end_index w}" using assms unfolding tags_in_range_def by blast
    from p consider q where "q \<in> tags w tg" "p = shift_mark c (length s) q"
      | "c \<le> p" "p < c + length s"
      unfolding shift_tag_def by (auto split: if_splits)
    then show "p \<in> {..<end_index w + length s}"
    proof cases
      case 1
      then have "q < end_index w" using t by blast
      then show ?thesis using 1(2) by (simp add: shift_mark_def)
    next
      case 2
      then show ?thesis by (simp add: c_def end_index_def)
    qed
  qed
  then show ?thesis unfolding tags_in_range_def e by (simp add: tk_insert_def Let_def c_def)
qed

lemma indent_in_range:
  assumes "tags_in_range w"
  shows "tags_in_range (indent_on_return ev w)"
  using assms tk_insert_in_range
  by (simp add: indent_on_return_def auto_indent_def Let_def)

text \<open>The structure of the result: the comment loop after a state that satisfies \<open>pre_inv\<close>.\<close>

lemma retag_result:
  assumes ok: "catalog_ok syn" and r: "tags_in_range w"
  shows "\<exists>w3. retag syn w = Some (Inr (comment_loop (reset_marks w3))) \<and> pre_inv w w3"
proof -
  have k: "list_all token_ok (syntax_keywords syn)" and b: "list_all token_ok (syntax_builtins syn)"
    using ok by (simp_all add: catalog_ok_def)
  have "\<exists>r. token_scan Kw (syntax_keywords syn) (clear_tags w) = Some (Inr r) \<and> pre_inv w r"
  proof (rule token_scan_rule[where P="pre_inv w" and w="clear_tags w", OF k])
    show "pre_inv w (clear_tags w)" using r by (rule pre_inv_clear)
    show "\<And>kw x x'. kw \<in> set (syntax_keywords syn) \<Longrightarrow> pre_inv w x \<Longrightarrow>
        token_step Kw kw x = Inr (Some x') \<Longrightarrow> pre_inv w x'"
      using k pre_inv_token[where tg=Kw] by (auto simp: list_all_iff)
    show "\<And>x. pre_inv w x \<Longrightarrow> pre_inv w (x\<lparr>mark_a := 0, mark_b := 0\<rparr>)" by (rule pre_inv_reset)
  qed
  then obtain w1 where w1: "token_scan Kw (syntax_keywords syn) (clear_tags w) = Some (Inr w1)"
    "pre_inv w w1" by blast
  have "\<exists>r. token_scan Bi (syntax_builtins syn) w1 = Some (Inr r) \<and> pre_inv w r"
  proof (rule token_scan_rule[where P="pre_inv w" and w=w1, OF b w1(2)])
    show "\<And>kw x x'. kw \<in> set (syntax_builtins syn) \<Longrightarrow> pre_inv w x \<Longrightarrow>
        token_step Bi kw x = Inr (Some x') \<Longrightarrow> pre_inv w x'"
      using b pre_inv_token[where tg=Bi] by (auto simp: list_all_iff)
    show "\<And>x. pre_inv w x \<Longrightarrow> pre_inv w (x\<lparr>mark_a := 0, mark_b := 0\<rparr>)" by (rule pre_inv_reset)
  qed
  then obtain w2 where w2: "token_scan Bi (syntax_builtins syn) w1 = Some (Inr w2)"
    "pre_inv w w2" by blast
  have rs: "pre_inv w (reset_marks x)" if "pre_inv w x" for x
    using that by (simp add: reset_marks_def pre_inv_reset)
  define d where "d = quote_loop Double (reset_marks w2)"
  define s where "s = quote_loop Single (reset_marks d)"
  have "pre_inv w d \<and> quote_step Double d = None"
    unfolding d_def using rs[OF w2(2)] by (rule quote_loop_rule) (rule pre_inv_quote)
  then have "pre_inv w (reset_marks d)" using rs by blast
  then have "pre_inv w s \<and> quote_step Single s = None"
    unfolding s_def by (rule quote_loop_rule) (rule pre_inv_quote)
  moreover have "retag syn w = Some (Inr (comment_loop (reset_marks s)))"
    using w1(1) w2(1) by (simp add: retag_def strings_and_comments_def s_def d_def)
  ultimately show ?thesis by blast
qed

lemma retag_tags:
  assumes "catalog_ok syn" "tags_in_range w"
  shows "\<exists>w3 r. retag syn w = Some (Inr r) \<and> pre_inv w w3 \<and>
     buffer r = buffer w \<and> cursor r = cursor w \<and>
     tags r Kw = tags w3 Kw \<and> tags r Bi = tags w3 Bi \<and>
     tags r Str = tags w3 Str - comment_spans w \<and> tags r Comment = comment_spans w"
proof -
  from retag_result[OF assms] obtain w3 where
    w3: "retag syn w = Some (Inr (comment_loop (reset_marks w3)))" "pre_inv w w3" by blast
  have p: "buffer w3 = buffer w" "cursor w3 = cursor w" "tags w3 Comment = {}"
    using w3(2) by (simp_all add: pre_inv_def)
  have m: "mark_b (reset_marks w3) = 0" by simp
  have bb: "buffer (reset_marks w3) = buffer w" using p by simp
  note c = comment_loop_result[OF m]
  have "buffer (comment_loop (reset_marks w3)) = buffer w"
    "cursor (comment_loop (reset_marks w3)) = cursor w"
    "tags (comment_loop (reset_marks w3)) Kw = tags w3 Kw"
    "tags (comment_loop (reset_marks w3)) Bi = tags w3 Bi"
    "tags (comment_loop (reset_marks w3)) Str = tags w3 Str - comment_spans w"
    "tags (comment_loop (reset_marks w3)) Comment = comment_spans w"
    unfolding c same_buffer[OF bb] using p by simp_all
  then show ?thesis using w3 by blast
qed

text \<open>The tags of a pass, in terms of the state \<open>w3\<close> in front of the comment loop.\<close>

lemma pass_tags:
  assumes "catalog_ok syn" "tags_in_range w"
  shows "\<exists>w3 r. syntaxHighlight syn ev w = Some (Inr r) \<and> r = comment_loop (reset_marks w3) \<and>
     buffer r = buffer (indent_on_return ev w) \<and> cursor r = cursor (indent_on_return ev w) \<and>
     buffer w3 = buffer r \<and> tags w3 Comment = {} \<and>
     tags w3 Kw \<subseteq> {..<length (buffer r)} \<and> tags w3 Bi \<subseteq> {..<length (buffer r)} \<and>
     tags w3 Str \<subseteq> {p. p < length (buffer r) \<and> buffer r ! p \<noteq> NL} \<and>
     tags r Kw = tags w3 Kw \<and> tags r Bi = tags w3 Bi \<and>
     tags r Str = tags w3 Str - comment_spans r \<and> tags r Comment = comment_spans r"
proof -
  define w0 where "w0 = indent_on_return ev w"
  have "tags_in_range w0" unfolding w0_def using assms(2) by (rule indent_in_range)
  from retag_result[OF assms(1) this] obtain w3 where
    w3: "retag syn w0 = Some (Inr (comment_loop (reset_marks w3)))" "pre_inv w0 w3" by blast
  define r where "r = comment_loop (reset_marks w3)"
  have p: "buffer w3 = buffer w0" "cursor w3 = cursor w0" "tags w3 Comment = {}"
    "tags w3 Kw \<subseteq> {..<length (buffer w0)}" "tags w3 Bi \<subseteq> {..<length (buffer w0)}"
    "tags w3 Str \<subseteq> {p. p < length (buffer w0) \<and> buffer w0 ! p \<noteq> NL}"
    using w3(2) by (simp_all add: pre_inv_def)
  have m: "mark_b (reset_marks w3) = 0" by simp
  note c = comment_loop_result[OF m, folded r_def]
  have br: "buffer r = buffer w0" using c(1) p(1) by simp
  have bb: "buffer (reset_marks w3) = buffer r" using br p(1) by simp
  have "syntaxHighlight syn ev w = Some (Inr r)"
    using w3(1) by (simp add: syntaxHighlight_def w0_def r_def)
  moreover have "cursor r = cursor w0" using c(2) p(2) by simp
  moreover have "tags r Kw = tags w3 Kw" "tags r Bi = tags w3 Bi" using c(3,4) by simp_all
  moreover have "tags r Str = tags w3 Str - comment_spans r" "tags r Comment = comment_spans r"
    using c(5,6) p(3) unfolding same_buffer[OF bb] by simp_all
  ultimately show ?thesis using p br unfolding w0_def r_def by auto
qed

lemma comment_spans_bound: "comment_spans w \<subseteq> {..<length (buffer w)}"
proof
  fix p assume "p \<in> comment_spans w"
  then obtain q where q: "comment_start w q" "q \<le> p" "p < lineend w q"
    unfolding comment_spans_def by blast
  then have "q \<le> length (buffer w)" by (simp add: comment_start_def)
  then have "lineend w q \<le> length (buffer w)" by (rule lineend_le)
  then show "p \<in> {..<length (buffer w)}" using q(3) by simp
qed

lemma comment_spans_code:
  "comment_spans w =
     (\<Union>q \<in> set (filter (comment_start w) [0..<length (buffer w)]). {q..<lineend w q})"
  unfolding comment_spans_def by (auto simp: comment_start_def)

text \<open>The loops do not read the cursor.\<close>

lemma token_step_cursor:
  "token_step tg kw (x\<lparr>cursor := c\<rparr>) =
     map_sum id (map_option (\<lambda>r. r\<lparr>cursor := c\<rparr>)) (token_step tg kw x)"
  by (simp add: token_step_def tag_add_def Let_def split: option.splits sum.splits bool.splits)

lemma quote_step_cursor:
  "quote_step q (x\<lparr>cursor := c\<rparr>) = map_option (\<lambda>r. r\<lparr>cursor := c\<rparr>) (quote_step q x)"
  by (simp add: quote_step_def tag_add_def Let_def split: option.splits)

lemma comment_step_cursor:
  "comment_step (x\<lparr>cursor := c\<rparr>) = map_option (\<lambda>r. r\<lparr>cursor := c\<rparr>) (comment_step x)"
  by (simp add: comment_step_def tag_add_def tag_remove_def Let_def split: option.splits)

lemma quote_loop_cursor:
  "quote_loop q (x\<lparr>cursor := c\<rparr>) = (quote_loop q x)\<lparr>cursor := c\<rparr>"
proof (induction q x rule: quote_loop.induct)
  case (1 q w)
  show ?case
  proof (cases "quote_step q w")
    case None
    then show ?thesis by (simp add: quote_step_cursor)
  next
    case (Some w')
    then show ?thesis using "1.IH"[OF Some] by (simp add: quote_step_cursor)
  qed
qed

lemma comment_loop_cursor:
  "comment_loop (x\<lparr>cursor := c\<rparr>) = (comment_loop x)\<lparr>cursor := c\<rparr>"
proof (induction x rule: comment_loop.induct)
  case (1 w)
  show ?case
  proof (cases "comment_step w")
    case None
    then show ?thesis by (simp add: comment_step_cursor)
  next
    case (Some w')
    then show ?thesis using "1.IH"[OF Some] by (simp add: comment_step_cursor)
  qed
qed

lemma token_loop_cursor:
  assumes "token_ok kw" "token_loop tg kw x = Some (Inr r)"
  shows "token_loop tg kw (x\<lparr>cursor := c\<rparr>) = Some (Inr (r\<lparr>cursor := c\<rparr>))"
  using assms(2)
proof (induction "end_index x - mark_b x" arbitrary: x rule: less_induct)
  case less
  have nl: "NL \<notin> set kw" using assms(1) by (simp add: token_ok_def)
  show ?case
  proof (cases "token_step tg kw x")
    case (Inl e)
    then show ?thesis using token_step_no_error[OF nl] by blast
  next
    case (Inr o1)
    show ?thesis
    proof (cases o1)
      case None
      then have "token_loop tg kw x = Some (Inr x)" using Inr by (subst token_loop.simps) simp
      then have "r = x" using less.prems by simp
      moreover have "token_loop tg kw (x\<lparr>cursor := c\<rparr>) = Some (Inr (x\<lparr>cursor := c\<rparr>))"
        using Inr None by (subst token_loop.simps) (simp add: token_step_cursor)
      ultimately show ?thesis by simp
    next
      case (Some x')
      then have s: "token_step tg kw x = Inr (Some x')" using Inr by simp
      note pr = token_step_progress[OF assms(1) s]
      have m: "end_index x' - mark_b x' < end_index x - mark_b x"
        using pr by (auto simp: end_index_def)
      have "token_loop tg kw x = token_loop tg kw x'"
        using s by (subst token_loop.simps) simp
      then have "token_loop tg kw x' = Some (Inr r)" using less.prems by simp
      then have "token_loop tg kw (x'\<lparr>cursor := c\<rparr>) = Some (Inr (r\<lparr>cursor := c\<rparr>))"
        using less.hyps[OF m] by blast
      moreover have "token_loop tg kw (x\<lparr>cursor := c\<rparr>) = token_loop tg kw (x'\<lparr>cursor := c\<rparr>)"
        using s by (subst token_loop.simps) (simp add: token_step_cursor)
      ultimately show ?thesis by simp
    qed
  qed
qed

lemma same_content_eq:
  assumes "same_content x y"
  shows "y = x\<lparr>cursor := cursor y, mark_a := mark_a y, mark_b := mark_b y\<rparr>"
  using assms by (cases x, cases y) (simp add: same_content_def)

lemma same_content_reset:
  assumes "same_content x y"
  shows "y\<lparr>mark_a := 0, mark_b := 0\<rparr> = (x\<lparr>mark_a := 0, mark_b := 0\<rparr>)\<lparr>cursor := cursor y\<rparr>"
  using assms by (cases x, cases y) (simp add: same_content_def)

lemma token_scan_same_content:
  assumes "list_all token_ok kws" "token_scan tg kws x = Some (Inr r)" "same_content x y"
  shows "\<exists>r'. token_scan tg kws y = Some (Inr r') \<and> same_content r r' \<and> cursor r' = cursor y"
  using assms
proof (induction kws arbitrary: x y)
  case Nil
  then show ?case by simp
next
  case (Cons kw kws)
  have ok: "token_ok kw" "list_all token_ok kws" using Cons.prems(1) by simp_all
  from Cons.prems(2) obtain r1 where
    r1: "token_loop tg kw (x\<lparr>mark_a := 0, mark_b := 0\<rparr>) = Some (Inr r1)"
      "token_scan tg kws r1 = Some (Inr r)"
    by (auto split: option.splits sum.splits)
  have "token_loop tg kw (y\<lparr>mark_a := 0, mark_b := 0\<rparr>) = Some (Inr (r1\<lparr>cursor := cursor y\<rparr>))"
    unfolding same_content_reset[OF Cons.prems(3)] using ok(1) r1(1) by (rule token_loop_cursor)
  moreover have "same_content r1 (r1\<lparr>cursor := cursor y\<rparr>)" by (simp add: same_content_def)
  then obtain r' where "token_scan tg kws (r1\<lparr>cursor := cursor y\<rparr>) = Some (Inr r')"
    "same_content r r'" "cursor r' = cursor (r1\<lparr>cursor := cursor y\<rparr>)"
    using Cons.IH[OF ok(2) r1(2)] by blast
  ultimately show ?case by simp
qed

lemma strings_and_comments_same_content:
  assumes "same_content x y"
  shows "strings_and_comments y = (strings_and_comments x)\<lparr>cursor := cursor y\<rparr>"
proof -
  have r: "reset_marks y = (reset_marks x)\<lparr>cursor := cursor y\<rparr>"
    unfolding reset_marks_def using assms by (rule same_content_reset)
  have rc: "reset_marks (z\<lparr>cursor := c\<rparr>) = (reset_marks z)\<lparr>cursor := c\<rparr>" for z c
    by (simp add: reset_marks_def)
  show ?thesis
    unfolding strings_and_comments_def r quote_loop_cursor rc comment_loop_cursor ..
qed

lemma retag_same_content:
  assumes "catalog_ok syn" "same_content (clear_tags x) (clear_tags y)"
    "retag syn x = Some (Inr r)"
  shows "retag syn y = Some (Inr (r\<lparr>cursor := cursor y\<rparr>))"
proof -
  have k: "list_all token_ok (syntax_keywords syn)" and b: "list_all token_ok (syntax_builtins syn)"
    using assms(1) by (simp_all add: catalog_ok_def)
  from assms(3) obtain w1 w2 where
    w: "token_scan Kw (syntax_keywords syn) (clear_tags x) = Some (Inr w1)"
      "token_scan Bi (syntax_builtins syn) w1 = Some (Inr w2)"
      "r = strings_and_comments w2"
    by (auto simp: retag_def split: option.splits sum.splits)
  from token_scan_same_content[OF k w(1) assms(2)] obtain v1 where
    v1: "token_scan Kw (syntax_keywords syn) (clear_tags y) = Some (Inr v1)" "same_content w1 v1"
      "cursor v1 = cursor (clear_tags y)"
    by blast
  from token_scan_same_content[OF b w(2) v1(2)] obtain v2 where
    v2: "token_scan Bi (syntax_builtins syn) v1 = Some (Inr v2)" "same_content w2 v2"
      "cursor v2 = cursor v1"
    by blast
  have "strings_and_comments v2 = r\<lparr>cursor := cursor y\<rparr>"
    using strings_and_comments_same_content[OF v2(2)] v2(3) v1(3) w(3) by simp
  then show ?thesis using v1(1) v2(1) by (simp add: retag_def)
qed

lemma clear_tags_same_content:
  assumes "tags_in_range x" "tags_in_range y" "buffer y = buffer x"
  shows "same_content (clear_tags x) (clear_tags y)"
proof -
  have "tags (clear_tags z) tg = {}" if "tags_in_range z" for z tg
  proof -
    have "tags z t - {0..<end_index z} = {}" for t
    proof -
      have "tags z t \<subseteq> {..<end_index z}" using that unfolding tags_in_range_def by blast
      then show ?thesis by auto
    qed
    then show ?thesis by (cases tg) (simp_all add: clear_tags_def tag_remove_def)
  qed
  then have "tags (clear_tags x) = tags (clear_tags y)" using assms(1,2) by (simp add: fun_eq_iff)
  then show ?thesis using assms(3) by (simp add: same_content_def)
qed

lemma pass_in_range:
  assumes "catalog_ok syn" "tags_in_range w" "syntaxHighlight syn ev w = Some (Inr r)"
  shows "tags_in_range r"
proof -
  from pass_tags[OF assms(1,2), of ev] obtain w3 :: widget and r0 where
    r: "syntaxHighlight syn ev w = Some (Inr r0)"
      "tags w3 Kw \<subseteq> {..<length (buffer r0)}" "tags w3 Bi \<subseteq> {..<length (buffer r0)}"
      "tags w3 Str \<subseteq> {p. p < length (buffer r0) \<and> buffer r0 ! p \<noteq> NL}"
      "tags r0 Kw = tags w3 Kw" "tags r0 Bi = tags w3 Bi"
      "tags r0 Str = tags w3 Str - comment_spans r0" "tags r0 Comment = comment_spans r0"
    by (elim exE conjE) (rule that; assumption)
  have e: "r0 = r" using r(1) assms(3) by simp
  have "tags r0 tg \<subseteq> {..<end_index r0}" for tg
  proof (cases tg)
    case Kw
    then show ?thesis using r(2,5) by (auto simp: end_index_def)
  next
    case Bi
    then show ?thesis using r(3,6) by (auto simp: end_index_def)
  next
    case Str
    then show ?thesis using r(4,7) by (auto simp: end_index_def)
  next
    case Comment
    then show ?thesis using r(8) comment_spans_bound[of r0] by (auto simp: end_index_def)
  qed
  then show ?thesis unfolding tags_in_range_def e by blast
qed





section \<open>The state before the comment loop\<close>

text \<open>The pass is the comment loop, with both marks at the start, after \<open>before_comments\<close>.\<close>

lemma retag_before_comments:
  "retag syn w =
     (case before_comments syn w of
        None \<Rightarrow> None
      | Some (Inl e) \<Rightarrow> Some (Inl e)
      | Some (Inr w3) \<Rightarrow> Some (Inr (comment_loop (reset_marks w3))))"
  by (simp add: retag_def before_comments_def strings_and_comments_def
      split: option.splits sum.splits)

lemma retag_before_comments_cases:
  assumes r: "retag syn w0 = Some (Inr r)"
  shows "\<exists>w3. before_comments syn w0 = Some (Inr w3) \<and> r = comment_loop (reset_marks w3)"
proof (cases "before_comments syn w0")
  case None
  with r show ?thesis unfolding retag_before_comments by simp
next
  case (Some a)
  show ?thesis
  proof (cases a)
    case (Inl e)
    with Some r show ?thesis unfolding retag_before_comments by simp
  next
    case (Inr w3)
    with Some r have "r = comment_loop (reset_marks w3)"
      unfolding retag_before_comments by simp
    with Some Inr show ?thesis by (intro exI[of _ w3] conjI) simp_all
  qed
qed

lemma comment_loop_tags:
  "tags (comment_loop (reset_marks x)) Kw = tags x Kw"
  "tags (comment_loop (reset_marks x)) Bi = tags x Bi"
  "tags (comment_loop (reset_marks x)) Str = tags x Str - comment_spans x"
  "tags (comment_loop (reset_marks x)) Comment = tags x Comment \<union> comment_spans x"
  "buffer (comment_loop (reset_marks x)) = buffer x"
proof -
  have m: "mark_b (reset_marks x) = 0" by simp
  have b: "buffer (reset_marks x) = buffer x" by simp
  note c = comment_loop_result[OF m]
  show "tags (comment_loop (reset_marks x)) Kw = tags x Kw"
    "tags (comment_loop (reset_marks x)) Bi = tags x Bi"
    "tags (comment_loop (reset_marks x)) Str = tags x Str - comment_spans x"
    "tags (comment_loop (reset_marks x)) Comment = tags x Comment \<union> comment_spans x"
    "buffer (comment_loop (reset_marks x)) = buffer x"
    unfolding c same_buffer[OF b] by simp_all
qed

lemma comment_loop_spans:
  assumes w3: "r = comment_loop (reset_marks w3)"
  shows "comment_spans r = comment_spans w3"
  unfolding w3 using comment_loop_tags(5)[of w3] by (rule same_buffer)

lemma comment_loop_pass_tags:
  assumes w3: "r = comment_loop (reset_marks w3)"
  shows "tags r Kw = tags w3 Kw" "tags r Bi = tags w3 Bi"
    "tags r Str = tags w3 Str - comment_spans r"
    "tags r Comment = tags w3 Comment \<union> comment_spans r"
  unfolding comment_loop_spans[OF w3] unfolding w3 by (rule comment_loop_tags)+

lemma pass_before_comments:
  assumes ok: "catalog_ok syn"
  shows "\<exists>w3 r. before_comments syn (indent_on_return ev w) = Some (Inr w3) \<and>
           syntaxHighlight syn ev w = Some (Inr r) \<and>
           tags r Kw = tags w3 Kw \<and> tags r Bi = tags w3 Bi \<and>
           tags r Str = tags w3 Str - comment_spans r \<and>
           tags r Comment = tags w3 Comment \<union> comment_spans r"
proof -
  from retag_frame[OF ok, of "indent_on_return ev w"]
  obtain r :: widget where r: "retag syn (indent_on_return ev w) = Some (Inr r)"
    by (elim exE conjE) (rule that; assumption)
  from retag_before_comments_cases[OF r] obtain w3 :: widget where
    b: "before_comments syn (indent_on_return ev w) = Some (Inr w3)"
    and w3: "r = comment_loop (reset_marks w3)"
    by (elim exE conjE) (rule that; assumption)
  have h: "syntaxHighlight syn ev w = Some (Inr r)"
    unfolding syntaxHighlight_def by (rule r)
  note t = comment_loop_pass_tags[OF w3]
  show ?thesis
    apply (rule exI[of _ w3])
    apply (rule exI[of _ r])
    apply (intro conjI)
         apply (rule b)
        apply (rule h)
       apply (rule t(1))
      apply (rule t(2))
     apply (rule t(3))
    apply (rule t(4))
    done
qed

section \<open>The properties of the specification\<close>

text \<open>
  C1.  Whenever the scan of a catalog token without line break (keyword or built-in function)
  finds an occurrence, searching from the end of the previous match, it tags the occurrence
  if and only if the occurrence is a delimited whole token in the sense of the
  specification (\<open>whole_token\<close>), and it resumes at the match's end.  With the token \<open>for\<close>: the line \<open>for\<close> is tagged, the
  line \<open>before\<close> is not, and in \<open>x=for;\<close> the \<open>for\<close> is tagged.
\<close>

theorem C1_tagged_iff_whole_token:
  "(NL \<notin> set kw \<longrightarrow> tk_search w kw (mark_b w) (end_index w) = Some i \<longrightarrow>
      token_step tg kw w =
        Inr (Some (if whole_token (tk_get w (linestart w i) (lineend w i))
                        (i - linestart w i) (length kw)
                   then w\<lparr>mark_a := i, mark_b := i + length kw,
                          tags := (tags w)(tg := tags w tg \<union> {i..<i + length kw})\<rparr>
                   else w\<lparr>mark_a := i, mark_b := i + length kw\<rparr>)))
   \<and> tagged Kw (syntaxHighlight only_for None (new_page (ustr ''for''))) = Some (Inr {0..<3})
   \<and> tagged Kw (syntaxHighlight only_for None (new_page (ustr ''before''))) = Some (Inr {})
   \<and> tagged Kw (syntaxHighlight only_for None (new_page (ustr ''x=for;''))) = Some (Inr {2..<5})"
proof (intro conjI impI)
  assume "NL \<notin> set kw" "tk_search w kw (mark_b w) (end_index w) = Some i"
  then show "token_step tg kw w =
        Inr (Some (if whole_token (tk_get w (linestart w i) (lineend w i))
                        (i - linestart w i) (length kw)
                   then w\<lparr>mark_a := i, mark_b := i + length kw,
                          tags := (tags w)(tg := tags w tg \<union> {i..<i + length kw})\<rparr>
                   else w\<lparr>mark_a := i, mark_b := i + length kw\<rparr>))"
    by (rule token_step_found)
next
  show "tagged Kw (syntaxHighlight only_for None (new_page (ustr ''for''))) = Some (Inr {0..<3})"
    by code_simp
next
  show "tagged Kw (syntaxHighlight only_for None (new_page (ustr ''before''))) = Some (Inr {})"
    by code_simp
next
  show "tagged Kw (syntaxHighlight only_for None (new_page (ustr ''x=for;''))) = Some (Inr {2..<5})"
    by code_simp
qed

theorem C1_tagged_iff_whole_token_witness:
  "NL \<notin> set (ustr ''for'')
   \<and> tk_search (new_page (ustr ''x=for;'')) (ustr ''for'') 0 7 = Some 2
   \<and> whole_token (ustr ''x=for;'') 2 3
   \<and> map_sum id (map_option (\<lambda>w. (mark_b w, tags w Bi)))
         (token_step Bi (ustr ''for'') (new_page (ustr ''x=for;''))) = Inr (Some (5, {2..<5}))"
proof -
  let ?w = "new_page (ustr ''x=for;'')"
  have h1: "NL \<notin> set (ustr ''for'')" by code_simp
  have h2: "tk_search ?w (ustr ''for'') (mark_b ?w) (end_index ?w) = Some 2" by code_simp
  have e: "tk_search ?w (ustr ''for'') 0 7 = Some 2" by code_simp
  have ln: "linestart ?w 2 = 0" "lineend ?w 2 = 6" "tk_get ?w 0 6 = ustr ''x=for;''"
    by code_simp+
  have wt: "whole_token (ustr ''x=for;'') 2 3" by code_simp
  have len: "length (ustr ''for'') = 3" by code_simp
  have t0: "tags ?w Bi = {}" by (simp add: new_page_def)
  from C1_tagged_iff_whole_token[THEN conjunct1, rule_format, OF h1 h2, of Bi]
  have "map_sum id (map_option (\<lambda>w. (mark_b w, tags w Bi)))
         (token_step Bi (ustr ''for'') ?w) = Inr (Some (5, {2..<5}))"
    by (simp add: ln wt len t0)
  with h1 e wt show ?thesis by simp
qed

text \<open>
  C9.  For a token that is not empty and contains no line break, every index at which the
  boundary condition reads the line of a match is at least 0 and less than the line's
  length, and the condition raises no exception, wherever in the line the match lies.
\<close>

theorem C9_lookups_in_range:
  assumes "kw \<noteq> []" "NL \<notin> set kw" "tk_search w kw b (end_index w) = Some i"
  shows "(\<forall>r \<in> set (fst (delimited (tk_get w (linestart w i) (lineend w i))
                 (int (i - linestart w i)) (int (length kw)))).
            0 \<le> r \<and> r < int (length (tk_get w (linestart w i) (lineend w i))))
       \<and> snd (delimited (tk_get w (linestart w i) (lineend w i))
                 (int (i - linestart w i)) (int (length kw))) \<noteq> Inl IndexError"
  using delimited_reads[OF token_in_line[OF assms(3,2)]]
    delimited_value[OF token_in_line[OF assms(3,2)]] by simp

theorem C9_lookups_in_range_witness:
  "ustr ''for'' \<noteq> [] \<and> NL \<notin> set (ustr ''for'')
   \<and> tk_search (new_page (ustr ''x=for;'')) (ustr ''for'') 0 7 = Some 2
   \<and> fst (delimited (ustr ''x=for;'') 2 3) = [1, 5]
   \<and> list_all (\<lambda>r. 0 \<le> r \<and> r < 6) (fst (delimited (ustr ''x=for;'') 2 3))"
proof -
  let ?w = "new_page (ustr ''x=for;'')"
  have h0: "ustr ''for'' \<noteq> []" by code_simp
  have h1: "NL \<notin> set (ustr ''for'')" by code_simp
  have h2: "tk_search ?w (ustr ''for'') 0 (end_index ?w) = Some 2" by code_simp
  have e: "tk_search ?w (ustr ''for'') 0 7 = Some 2" by code_simp
  have ln: "linestart ?w 2 = 0" "lineend ?w 2 = 6" "tk_get ?w 0 6 = ustr ''x=for;''"
    "length (ustr ''for'') = 3" "length (ustr ''x=for;'') = 6"
    by code_simp+
  have r: "fst (delimited (ustr ''x=for;'') 2 3) = [1, 5]" by code_simp
  from C9_lookups_in_range[OF h0 h1 h2]
  have "list_all (\<lambda>r. 0 \<le> r \<and> r < 6) (fst (delimited (ustr ''x=for;'') 2 3))"
    by (simp add: ln list_all_iff)
  with h0 h1 e r show ?thesis by simp
qed

text \<open>
  C7.  With a catalog of well-formed tokens, a pass triggered by an event whose key is not
  Return, or called without an event, returns and leaves the buffer (and the cursor) as they were; a pass triggered by Return
  changes the buffer only by inserting spaces at the cursor.
\<close>

theorem C7_text_unchanged:
  assumes "catalog_ok syn"
  shows "((ev = None \<or> keysym (the ev) \<noteq> ''Return'') \<longrightarrow>
           (\<exists>r. syntaxHighlight syn ev w = Some (Inr r) \<and> buffer r = buffer w \<and> cursor r = cursor w))
       \<and> (\<exists>r k. syntaxHighlight syn ev w = Some (Inr r) \<and>
             buffer r = take (min (cursor w) (length (buffer w))) (buffer w) @ replicate k SPACE @
                        drop (min (cursor w) (length (buffer w))) (buffer w))"
proof (intro conjI impI)
  assume "ev = None \<or> keysym (the ev) \<noteq> ''Return''"
  then have "indent_on_return ev w = w" by (auto simp: indent_on_return_def)
  then show "\<exists>r. syntaxHighlight syn ev w = Some (Inr r) \<and> buffer r = buffer w \<and> cursor r = cursor w"
    using retag_frame[OF assms, of w] by (simp add: syntaxHighlight_def)
next
  let ?c = "min (cursor w) (length (buffer w))"
  obtain r where r: "syntaxHighlight syn ev w = Some (Inr r)"
      "buffer r = buffer (indent_on_return ev w)"
    using retag_frame[OF assms, of "indent_on_return ev w"] by (auto simp: syntaxHighlight_def)
  have "\<exists>k. buffer (indent_on_return ev w) = take ?c (buffer w) @ replicate k SPACE @ drop ?c (buffer w)"
  proof (cases "ev \<noteq> None \<and> keysym (the ev) = ''Return''")
    case True
    then show ?thesis using auto_indent_buffer[of w] by (simp add: indent_on_return_def)
  next
    case False
    then have "indent_on_return ev w = w" by (auto simp: indent_on_return_def)
    then have "buffer (indent_on_return ev w) = take ?c (buffer w) @ replicate 0 SPACE @ drop ?c (buffer w)"
      by simp
    then show ?thesis by blast
  qed
  with r show "\<exists>r k. syntaxHighlight syn ev w = Some (Inr r) \<and>
             buffer r = take ?c (buffer w) @ replicate k SPACE @ drop ?c (buffer w)"
    by auto
qed

theorem C7_text_unchanged_witness:
  "catalog_ok python_sample
   \<and> buffer_of (syntaxHighlight python_sample (Some (KeyRelease ''a'')) (new_page (ustr ''for a'')))
       = Some (Inr (ustr ''for a''))
   \<and> buffer_of (syntaxHighlight python_sample None (new_page (ustr ''for a'')))
       = Some (Inr (ustr ''for a''))"
proof -
  have ok: "catalog_ok python_sample" by code_simp
  have k: "keysym (the (Some (KeyRelease ''a''))) \<noteq> ''Return''" by simp
  from C7_text_unchanged[OF ok, where ev="Some (KeyRelease ''a'')" and w="new_page (ustr ''for a'')",
      THEN conjunct1, rule_format, OF disjI2, OF k]
  have a: "buffer_of (syntaxHighlight python_sample (Some (KeyRelease ''a'')) (new_page (ustr ''for a'')))
       = Some (Inr (buffer (new_page (ustr ''for a''))))"
    by (auto simp: buffer_of_def)
  from C7_text_unchanged[OF ok, where ev=None and w="new_page (ustr ''for a'')",
      THEN conjunct1, rule_format, OF disjI1, OF refl]
  have b: "buffer_of (syntaxHighlight python_sample None (new_page (ustr ''for a'')))
       = Some (Inr (buffer (new_page (ustr ''for a''))))"
    by (auto simp: buffer_of_def)
  show ?thesis using ok a b by (simp add: new_page_def)
qed





text \<open>
  C10.  The comment loop, entered in any state \<open>x\<close> with both marks at the start as the
  pass enters it, leaves the Keyword and Builtin tags of \<open>x\<close> as they are, removes the
  String tag exactly from the positions of the comments and adds the Comment tag there.
  So, for a catalog of well-formed tokens, the pass returns with the Keyword and Builtin
  tags that the scans before the comment loop (\<open>before_comments\<close>) have set, those inside
  comments included.  In \<open># "a" for len\<close>, with the keyword \<open>for\<close> and the built-in function
  \<open>len\<close>, the scans before the comment loop tag \<open>for\<close>, \<open>len\<close> and the string \<open>"a"\<close>; the
  pass ends with \<open>for\<close> still tagged Keyword, \<open>len\<close> still tagged Builtin, no String tag,
  and the whole line tagged Comment.
\<close>

theorem C10_comment_keeps_keywords:
  "(tags (comment_loop (reset_marks x)) Kw = tags x Kw
    \<and> tags (comment_loop (reset_marks x)) Bi = tags x Bi
    \<and> tags (comment_loop (reset_marks x)) Str = tags x Str - comment_spans x
    \<and> tags (comment_loop (reset_marks x)) Comment = tags x Comment \<union> comment_spans x)
   \<and> (catalog_ok syn \<longrightarrow>
        (\<exists>w3 r. before_comments syn (indent_on_return ev w) = Some (Inr w3) \<and>
           syntaxHighlight syn ev w = Some (Inr r) \<and>
           tags r Kw = tags w3 Kw \<and> tags r Bi = tags w3 Bi \<and>
           tags r Str = tags w3 Str - comment_spans r \<and>
           tags r Comment = tags w3 Comment \<union> comment_spans r))
   \<and> tagged Kw (before_comments python_sample (new_page (ustr ''# \"a\" for len''))) = Some (Inr {6..<9})
   \<and> tagged Bi (before_comments python_sample (new_page (ustr ''# \"a\" for len''))) = Some (Inr {10..<13})
   \<and> tagged Str (before_comments python_sample (new_page (ustr ''# \"a\" for len''))) = Some (Inr {2..<5})
   \<and> tagged Kw (syntaxHighlight python_sample None (new_page (ustr ''# \"a\" for len''))) = Some (Inr {6..<9})
   \<and> tagged Bi (syntaxHighlight python_sample None (new_page (ustr ''# \"a\" for len''))) = Some (Inr {10..<13})
   \<and> tagged Str (syntaxHighlight python_sample None (new_page (ustr ''# \"a\" for len''))) = Some (Inr {})
   \<and> tagged Comment (syntaxHighlight python_sample None (new_page (ustr ''# \"a\" for len''))) = Some (Inr {0..<13})"
proof -
  have g1: "tags (comment_loop (reset_marks x)) Kw = tags x Kw
    \<and> tags (comment_loop (reset_marks x)) Bi = tags x Bi
    \<and> tags (comment_loop (reset_marks x)) Str = tags x Str - comment_spans x
    \<and> tags (comment_loop (reset_marks x)) Comment = tags x Comment \<union> comment_spans x"
    by (intro conjI) (rule comment_loop_tags)+
  have g2: "catalog_ok syn \<longrightarrow>
        (\<exists>w3 r. before_comments syn (indent_on_return ev w) = Some (Inr w3) \<and>
           syntaxHighlight syn ev w = Some (Inr r) \<and>
           tags r Kw = tags w3 Kw \<and> tags r Bi = tags w3 Bi \<and>
           tags r Str = tags w3 Str - comment_spans r \<and>
           tags r Comment = tags w3 Comment \<union> comment_spans r)"
    by (rule impI) (rule pass_before_comments)
  have e1: "tagged Kw (before_comments python_sample (new_page (ustr ''# \"a\" for len''))) = Some (Inr {6..<9})"
    by code_simp
  have e2: "tagged Bi (before_comments python_sample (new_page (ustr ''# \"a\" for len''))) = Some (Inr {10..<13})"
    by code_simp
  have e3: "tagged Str (before_comments python_sample (new_page (ustr ''# \"a\" for len''))) = Some (Inr {2..<5})"
    by code_simp
  have e4: "tagged Kw (syntaxHighlight python_sample None (new_page (ustr ''# \"a\" for len''))) = Some (Inr {6..<9})"
    by code_simp
  have e5: "tagged Bi (syntaxHighlight python_sample None (new_page (ustr ''# \"a\" for len''))) = Some (Inr {10..<13})"
    by code_simp
  have e6: "tagged Str (syntaxHighlight python_sample None (new_page (ustr ''# \"a\" for len''))) = Some (Inr {})"
    by code_simp
  have e7: "tagged Comment (syntaxHighlight python_sample None (new_page (ustr ''# \"a\" for len''))) = Some (Inr {0..<13})"
    by code_simp
  show ?thesis
    apply (rule conjI)
     apply (rule g1)
    apply (rule conjI)
     apply (rule g2)
    apply (intro conjI)
          apply (rule e1)
         apply (rule e2)
        apply (rule e3)
       apply (rule e4)
      apply (rule e5)
     apply (rule e6)
    apply (rule e7)
    done
qed

theorem C10_comment_keeps_keywords_witness:
  "catalog_ok python_sample
   \<and> (\<exists>w3 r. before_comments python_sample (new_page (ustr ''# \"a\" for len'')) = Some (Inr w3) \<and>
         syntaxHighlight python_sample None (new_page (ustr ''# \"a\" for len'')) = Some (Inr r) \<and>
         tags w3 Kw = {6..<9} \<and> tags r Kw = {6..<9} \<and>
         tags w3 Bi = {10..<13} \<and> tags r Bi = {10..<13} \<and>
         tags w3 Str = {2..<5} \<and> tags r Str = {} \<and> tags r Comment = {0..<13})"
proof -
  let ?w = "new_page (ustr ''# \"a\" for len'')"
  have ok: "catalog_ok python_sample" by code_simp
  have i: "indent_on_return None ?w = ?w" by (simp add: indent_on_return_def)
  from C10_comment_keeps_keywords[THEN conjunct2, THEN conjunct1, rule_format, OF ok,
      of None ?w]
  obtain w3 :: widget and r :: widget where
    b: "before_comments python_sample ?w = Some (Inr w3)"
    and h: "syntaxHighlight python_sample None ?w = Some (Inr r)"
    and k: "tags r Kw = tags w3 Kw" and f: "tags r Bi = tags w3 Bi"
    unfolding i by (elim exE conjE) (rule that; assumption)
  have e: "tagged Kw (before_comments python_sample ?w) = Some (Inr {6..<9})"
    "tagged Bi (before_comments python_sample ?w) = Some (Inr {10..<13})"
    "tagged Str (before_comments python_sample ?w) = Some (Inr {2..<5})"
    by code_simp+
  have a: "tagged Str (syntaxHighlight python_sample None ?w) = Some (Inr {})"
    "tagged Comment (syntaxHighlight python_sample None ?w) = Some (Inr {0..<13})"
    by code_simp+
  have w3: "tags w3 Kw = {6..<9}" "tags w3 Bi = {10..<13}" "tags w3 Str = {2..<5}"
    using e unfolding b by (simp_all add: tagged_def)
  have rr: "tags r Str = {}" "tags r Comment = {0..<13}"
    using a unfolding h by (simp_all add: tagged_def)
  have rk: "tags r Kw = {6..<9}" "tags r Bi = {10..<13}"
    unfolding k f by (rule w3)+
  show ?thesis
    apply (rule conjI)
     apply (rule ok)
    apply (rule exI[of _ w3])
    apply (rule exI[of _ r])
    apply (intro conjI)
            apply (rule b)
           apply (rule h)
          apply (rule w3(1))
         apply (rule rk(1))
        apply (rule w3(2))
       apply (rule rk(2))
      apply (rule w3(3))
     apply (rule rr(1))
    apply (rule rr(2))
    done
qed

text \<open>
  C4, as stated, fails: in the buffer \<open>s = "for"\<close> the keyword \<open>for\<close> inside the string
  carries the Keyword tag and the String tag at once.
\<close>

theorem C4_counterexample:
  "tagged Kw (syntaxHighlight only_for None (new_page (ustr ''s = \"for\"''))) = Some (Inr {5..<8})
   \<and> tagged Str (syntaxHighlight only_for None (new_page (ustr ''s = \"for\"''))) = Some (Inr {4..<9})
   \<and> (6::nat) \<in> {5..<8} \<inter> {4..<9}"
  by code_simp

text \<open>
  C4, amended.  With a catalog of well-formed tokens and a widget whose tags lie within its
  characters, after a pass every tagged position lies within the buffer, and no position
  carries both the String and the Comment tag.  (Keyword and Builtin tags are never removed
  by the later scans and may lie inside strings and comments.)
\<close>

theorem C4_tags_in_bounds:
  assumes "catalog_ok syn" "tags_in_range w"
  shows "\<exists>r. syntaxHighlight syn ev w = Some (Inr r) \<and>
     tags r Kw \<subseteq> {..<length (buffer r)} \<and> tags r Bi \<subseteq> {..<length (buffer r)} \<and>
     tags r Str \<subseteq> {..<length (buffer r)} \<and> tags r Comment \<subseteq> {..<length (buffer r)} \<and>
     tags r Str \<inter> tags r Comment = {}"
proof -
  from pass_tags[OF assms, of ev] obtain w3 :: widget and r where
    r: "syntaxHighlight syn ev w = Some (Inr r)"
      "tags w3 Kw \<subseteq> {..<length (buffer r)}" "tags w3 Bi \<subseteq> {..<length (buffer r)}"
      "tags w3 Str \<subseteq> {p. p < length (buffer r) \<and> buffer r ! p \<noteq> NL}"
      "tags r Kw = tags w3 Kw" "tags r Bi = tags w3 Bi"
      "tags r Str = tags w3 Str - comment_spans r" "tags r Comment = comment_spans r"
    by (elim exE conjE) (rule that; assumption)
  have "tags r Str \<subseteq> {..<length (buffer r)}" using r(4,7) by auto
  moreover have "tags r Comment \<subseteq> {..<length (buffer r)}"
    unfolding r(8) by (rule comment_spans_bound)
  moreover have "tags r Str \<inter> tags r Comment = {}" unfolding r(7,8) by blast
  ultimately show ?thesis using r(1,2,3,5,6) by auto
qed

theorem C4_tags_in_bounds_witness:
  "catalog_ok only_for \<and> tags_in_range (new_page (ustr ''s = \"for\" # x''))
   \<and> (\<exists>r. syntaxHighlight only_for None (new_page (ustr ''s = \"for\" # x'')) = Some (Inr r)
         \<and> length (buffer r) = 13 \<and> tags r Kw \<subseteq> {..<13} \<and> tags r Str \<subseteq> {..<13}
         \<and> tags r Comment \<subseteq> {..<13} \<and> tags r Str \<inter> tags r Comment = {})"
proof -
  let ?w = "new_page (ustr ''s = \"for\" # x'')"
  have ok: "catalog_ok only_for" by code_simp
  have rg: "tags_in_range ?w" by (simp add: tags_in_range_def new_page_def)
  from C4_tags_in_bounds[OF ok rg, of None] obtain r where
    r: "syntaxHighlight only_for None ?w = Some (Inr r)"
      "tags r Kw \<subseteq> {..<length (buffer r)}" "tags r Str \<subseteq> {..<length (buffer r)}"
      "tags r Comment \<subseteq> {..<length (buffer r)}" "tags r Str \<inter> tags r Comment = {}"
    by (elim exE conjE) (rule that; assumption)
  from retag_frame[OF ok, of ?w] r(1) have b: "buffer r = buffer ?w"
    by (simp add: syntaxHighlight_def indent_on_return_def)
  have "length (buffer ?w) = 13" by code_simp
  then have l: "length (buffer r) = 13" unfolding b .
  show ?thesis using ok rg r unfolding l by (intro conjI exI[of _ r]) (simp_all add: l)
qed

text \<open>
  C5, as stated, fails in its second half: in \<open>s = "a" # b\<close> the Comment tag begins at the
  \<open>#\<close> (position 8); the space in front of it (position 7) is not tagged.
\<close>

theorem C5_counterexample:
  "tagged Comment (syntaxHighlight python_sample None (new_page (ustr ''s = \"a\" # b''))) =
     Some (Inr {8..<11})
   \<and> ustr ''s = \"a\" # b'' ! 7 = SPACE \<and> ustr ''s = \"a\" # b'' ! 8 = HASH
   \<and> (7::nat) \<notin> {8..<11}"
  by code_simp

text \<open>
  C5, amended.  For every catalog of well-formed tokens: in \<open>s = "a # b\<close> nothing is tagged
  Comment, and in \<open>s = "a" # b\<close> exactly \<open># b\<close>, the positions 8 to 10, is tagged Comment.
\<close>

theorem C5_comment_examples:
  assumes "catalog_ok syn"
  shows "tagged Comment (syntaxHighlight syn None (new_page (ustr ''s = \"a # b''))) = Some (Inr {})
       \<and> tagged Comment (syntaxHighlight syn None (new_page (ustr ''s = \"a\" # b''))) =
           Some (Inr {8..<11})"
proof -
  have g: "tagged Comment (syntaxHighlight syn None (new_page b)) =
      Some (Inr (comment_spans (new_page b)))" for b
  proof -
    have rg: "tags_in_range (new_page b)" by (simp add: tags_in_range_def new_page_def)
    from pass_tags[OF assms rg, of None] obtain w3 :: widget and r where
      r: "syntaxHighlight syn None (new_page b) = Some (Inr r)"
        "buffer r = buffer (indent_on_return None (new_page b))"
        "tags r Comment = comment_spans r"
      by (elim exE conjE) (rule that; assumption)
    have "buffer r = buffer (new_page b)" using r(2) by (simp add: indent_on_return_def)
    then have "comment_spans r = comment_spans (new_page b)" by (rule same_buffer)
    then show ?thesis using r(1,3) by (simp add: tagged_def)
  qed
  have "comment_spans (new_page (ustr ''s = \"a # b'')) = {}"
    unfolding comment_spans_code by code_simp
  moreover have "comment_spans (new_page (ustr ''s = \"a\" # b'')) = {8..<11}"
    unfolding comment_spans_code by code_simp
  ultimately show ?thesis using g by simp
qed

theorem C5_comment_examples_witness:
  "catalog_ok python_sample
   \<and> tagged Comment (syntaxHighlight python_sample None (new_page (ustr ''s = \"a # b''))) =
       Some (Inr {})
   \<and> tagged Comment (syntaxHighlight python_sample None (new_page (ustr ''s = \"a\" # b''))) =
       Some (Inr {8..<11})"
proof -
  have ok: "catalog_ok python_sample" by code_simp
  from C5_comment_examples[OF ok] ok show ?thesis by simp
qed

text \<open>
  C8.  With a catalog of well-formed tokens and a widget whose tags lie within its
  characters, the tags a pass leaves are determined by the buffer it leaves and by the catalog:
  a further pass that is not triggered by Return, on the result or on any widget with the
  same buffer whatever its tags, cursor and marks, produces the same tags; on the result
  itself it changes nothing at all.
\<close>

theorem C8_idempotent:
  assumes "catalog_ok syn" "tags_in_range w"
  shows "\<exists>r. syntaxHighlight syn ev w = Some (Inr r) \<and>
     (\<forall>ev'. (ev' = None \<or> keysym (the ev') \<noteq> ''Return'') \<longrightarrow>
        syntaxHighlight syn ev' r = Some (Inr r)) \<and>
     (\<forall>w' ev'. tags_in_range w' \<and> buffer w' = buffer r \<and>
          (ev' = None \<or> keysym (the ev') \<noteq> ''Return'') \<longrightarrow>
        (\<exists>r'. syntaxHighlight syn ev' w' = Some (Inr r') \<and> tags r' = tags r))"
proof -
  define w0 where "w0 = indent_on_return ev w"
  have r0: "tags_in_range w0" unfolding w0_def using assms(2) by (rule indent_in_range)
  from retag_frame[OF assms(1), of w0] obtain r where
    r: "retag syn w0 = Some (Inr r)" "buffer r = buffer w0" by blast
  have p: "syntaxHighlight syn ev w = Some (Inr r)"
    using r(1) by (simp add: syntaxHighlight_def w0_def)
  have rr: "tags_in_range r" using assms p by (rule pass_in_range)
  have again: "syntaxHighlight syn ev' w' = Some (Inr (r\<lparr>cursor := cursor w'\<rparr>))"
    if "tags_in_range w'" "buffer w' = buffer r" "ev' = None \<or> keysym (the ev') \<noteq> ''Return''"
    for w' ev'
  proof -
    have "same_content (clear_tags w0) (clear_tags w')"
      using r0 that(1) that(2) r(2) by (intro clear_tags_same_content) simp_all
    then have "retag syn w' = Some (Inr (r\<lparr>cursor := cursor w'\<rparr>))"
      using assms(1) r(1) by (intro retag_same_content[where x=w0]) simp_all
    moreover have "indent_on_return ev' w' = w'"
      using that(3) by (auto simp: indent_on_return_def)
    ultimately show ?thesis by (simp add: syntaxHighlight_def)
  qed
  have "syntaxHighlight syn ev' r = Some (Inr r)"
    if "ev' = None \<or> keysym (the ev') \<noteq> ''Return''" for ev'
    using again[OF rr refl that] by simp
  moreover have "\<exists>r'. syntaxHighlight syn ev' w' = Some (Inr r') \<and> tags r' = tags r"
    if "tags_in_range w' \<and> buffer w' = buffer r \<and> (ev' = None \<or> keysym (the ev') \<noteq> ''Return'')"
    for w' ev'
    using again[of w' ev'] that by simp
  ultimately show ?thesis using p by blast
qed

theorem C8_idempotent_witness:
  "catalog_ok python_sample \<and> tags_in_range (new_page (ustr ''for x in \"a\" # b''))
   \<and> (\<exists>r. syntaxHighlight python_sample None (new_page (ustr ''for x in \"a\" # b'')) = Some (Inr r)
         \<and> syntaxHighlight python_sample None r = Some (Inr r)
         \<and> syntaxHighlight python_sample (Some (KeyRelease ''a'')) r = Some (Inr r)
         \<and> tags r Kw = {0..<3})"
proof -
  let ?w = "new_page (ustr ''for x in \"a\" # b'')"
  have ok: "catalog_ok python_sample" by code_simp
  have rg: "tags_in_range ?w" by (simp add: tags_in_range_def new_page_def)
  from C8_idempotent[OF ok rg, of None] obtain r where
    r: "syntaxHighlight python_sample None ?w = Some (Inr r)"
    and i: "\<forall>ev'. (ev' = None \<or> keysym (the ev') \<noteq> ''Return'') \<longrightarrow>
        syntaxHighlight python_sample ev' r = Some (Inr r)"
    by (elim exE conjE) (rule that; assumption)
  have a: "syntaxHighlight python_sample None r = Some (Inr r)" using i by blast
  have b: "syntaxHighlight python_sample (Some (KeyRelease ''a'')) r = Some (Inr r)"
    using i[rule_format, of "Some (KeyRelease ''a'')"] by simp
  have "tagged Kw (syntaxHighlight python_sample None ?w) = Some (Inr {0..<3})" by code_simp
  then have k: "tags r Kw = {0..<3}" using r by (simp add: tagged_def)
  show ?thesis using ok rg r a b k by (intro conjI exI[of _ r]) simp_all
qed



end
